theory Spec2Isabelle
  imports Complex_Main "HOL-Library.Word"
begin

unbundle bit_operations_syntax

chapter \<open>The program\<close>

section \<open>JavaScript arrays\<close>

text \<open>
  \<^verbatim>\<open>Array.prototype.slice(start, end)\<close> and \<^verbatim>\<open>Uint8Array.prototype.slice\<close> on integer
  arguments: a negative index counts from the end, both ends are clamped to the array,
  and an empty range gives the empty array.
\<close>

definition js_rel_index :: "nat \<Rightarrow> int \<Rightarrow> nat" where
  "js_rel_index len i = (if i < 0 then nat (max (int len + i) 0) else min (nat i) len)"

definition js_slice :: "'a list \<Rightarrow> int \<Rightarrow> int \<Rightarrow> 'a list" where
  "js_slice xs start end =
     (let k = js_rel_index (length xs) start;
          final = js_rel_index (length xs) end
      in take (final - k) (drop k xs))"

section \<open>JavaScript values\<close>

text \<open>
  A JavaScript string is a sequence of UTF-16 code units; a byte buffer
  (\<^verbatim>\<open>Uint8Array\<close>) is a list of bytes.
\<close>

type_synonym byte = "8 word"
type_synonym jsstring = "16 word list"

definition ascii :: "string \<Rightarrow> jsstring" where
  "ascii s = map (\<lambda>c. word_of_nat (of_char c)) s"

text \<open>
  A number is a double. The ones this program makes are integers it computed itself
  (lengths, offsets, decoded integers), kept exactly, and decoded floating-point values,
  kept as their IEEE 754 bits: no floating-point arithmetic is done on them.
\<close>

datatype jsnum = NInt int | NFloat32 "32 word" | NFloat64 "64 word"

text \<open>
  The values that \<^verbatim>\<open>JSON.parse\<close> and the binary decoder produce. An object is its own
  properties in insertion order and its prototype, which an assignment to the key
  \<^verbatim>\<open>__proto__\<close> can change.
\<close>

datatype jsval =
    JUndefined
  | JNull
  | JBool bool
  | JNum jsnum
  | JStr jsstring
  | JBytes "byte list"
  | JArr "jsval list"
  | JObj "(jsstring \<times> jsval) list" jsproto
and jsproto = ObjectPrototype | NullPrototype | ProtoOf jsval

text \<open>
  What the program throws: \<^verbatim>\<open>new Error(message)\<close> of the source itself, and the errors
  the runtime raises (their message texts are the engine's own).
\<close>

datatype js_error =
    Error jsstring
  | TypeError
  | RangeError
  | SyntaxError
  | OperationError
  | InvalidCharacterError
  | DataError

text \<open>\<^verbatim>\<open>ToBoolean\<close>: zero and NaN are the falsy numbers.\<close>

definition num_truthy :: "jsnum \<Rightarrow> bool" where
  "num_truthy n = (case n of
       NInt i \<Rightarrow> i \<noteq> 0
     | NFloat32 w \<Rightarrow> (w AND 0x7FFFFFFF) \<noteq> 0
                    \<and> \<not> ((w AND 0x7F800000) = 0x7F800000 \<and> (w AND 0x007FFFFF) \<noteq> 0)
     | NFloat64 w \<Rightarrow> (w AND 0x7FFFFFFFFFFFFFFF) \<noteq> 0
                    \<and> \<not> ((w AND 0x7FF0000000000000) = 0x7FF0000000000000
                         \<and> (w AND 0x000FFFFFFFFFFFFF) \<noteq> 0))"

definition js_truthy :: "jsval \<Rightarrow> bool" where
  "js_truthy v = (case v of
       JUndefined \<Rightarrow> False
     | JNull \<Rightarrow> False
     | JBool b \<Rightarrow> b
     | JNum n \<Rightarrow> num_truthy n
     | JStr s \<Rightarrow> s \<noteq> []
     | _ \<Rightarrow> True)"

text \<open>\<^verbatim>\<open>v === null || v === undefined\<close>: reading a property of such a value throws a
  \<^verbatim>\<open>TypeError\<close>.\<close>

definition js_nullish :: "jsval \<Rightarrow> bool" where
  "js_nullish v = (v = JUndefined \<or> v = JNull)"

text \<open>\<^verbatim>\<open>typeof v === 'object'\<close> for a value that is not \<^verbatim>\<open>null\<close>.\<close>

definition js_is_object :: "jsval \<Rightarrow> bool" where
  "js_is_object v = (case v of JBytes _ \<Rightarrow> True | JArr _ \<Rightarrow> True | JObj _ _ \<Rightarrow> True | _ \<Rightarrow> False)"

text \<open>\<^verbatim>\<open>String.prototype.includes\<close>.\<close>

fun js_includes :: "jsstring \<Rightarrow> jsstring \<Rightarrow> bool" where
  "js_includes [] pat = (pat = [])"
| "js_includes (c # cs) pat = (take (length pat) (c # cs) = pat \<or> js_includes cs pat)"

section \<open>The runtime the program runs on\<close>

text \<open>
  The program calls the JavaScript runtime and the browser for what it does not do
  itself. These are parameters of the model; every theorem holds for each of them.
  \<^item> \<open>obj_set obj key val\<close> is the object after \<^verbatim>\<open>obj[key] = val\<close>, or the error that
    converting \<open>key\<close> to a property key raises;
  \<^item> \<open>obj_get v name\<close> is \<^verbatim>\<open>v.name\<close> for a value that is neither \<^verbatim>\<open>null\<close> nor
    \<^verbatim>\<open>undefined\<close>;
  \<^item> \<open>obj_entries\<close> and \<open>obj_from_entries\<close> are \<^verbatim>\<open>Object.entries\<close> and
    \<^verbatim>\<open>Object.fromEntries\<close>;
  \<^item> \<open>json_parse\<close> is \<^verbatim>\<open>JSON.parse\<close>, \<open>atob\<close> is \<^verbatim>\<open>atob\<close>;
  \<^item> \<open>import_private_key\<close>, \<open>rsa_oaep_decrypt\<close>, \<open>import_aes_key\<close> and
    \<open>aes_gcm_decrypt\<close> are \<^verbatim>\<open>crypto.subtle.importKey\<close> and \<^verbatim>\<open>crypto.subtle.decrypt\<close>
    with the parameters the source passes (the first one takes the PEM text);
  \<^item> \<open>gunzip\<close> is a \<^verbatim>\<open>DecompressionStream('gzip')\<close> read to its end.
\<close>

record ('k, 'a) platform =
  obj_set :: "jsval \<Rightarrow> jsval \<Rightarrow> jsval \<Rightarrow> js_error + jsval"
  obj_get :: "jsval \<Rightarrow> jsstring \<Rightarrow> jsval"
  obj_entries :: "jsval \<Rightarrow> (jsstring \<times> jsval) list"
  obj_from_entries :: "(jsstring \<times> jsval) list \<Rightarrow> jsval"
  json_parse :: "jsstring \<Rightarrow> js_error + jsval"
  atob :: "jsval \<Rightarrow> js_error + jsstring"
  import_private_key :: "jsstring \<Rightarrow> js_error + 'k"
  rsa_oaep_decrypt :: "'k \<Rightarrow> jsval \<Rightarrow> js_error + byte list"
  import_aes_key :: "byte list \<Rightarrow> js_error + 'a"
  aes_gcm_decrypt :: "'a \<Rightarrow> byte list \<Rightarrow> byte list \<Rightarrow> js_error + byte list"
  gunzip :: "byte list \<Rightarrow> js_error + byte list"

section \<open>Chunk partitioning (decrypt-snapshot-streaming.ts)\<close>

text \<open>
  \<^verbatim>\<open>
  function chunkMessages(messages, chunkSize) {
    const chunks = [];
    for (let i = 0; i < messages.length; i += chunkSize) {
      chunks.push(messages.slice(i, i + chunkSize));
    }
    return chunks;
  }
  \<close>
  The loop does not end when \<open>chunkSize \<le> 0\<close> and the array is not empty, so it is a
  partial function: \<open>None\<close> is "never returns".
\<close>

partial_function (option) chunk_loop ::
  "'a list \<Rightarrow> int \<Rightarrow> int \<Rightarrow> 'a list list \<Rightarrow> 'a list list option" where
  "chunk_loop messages chunkSize i chunks =
     (if i < int (length messages)
      then chunk_loop messages chunkSize (i + chunkSize)
             (chunks @ [js_slice messages i (i + chunkSize)])
      else Some chunks)"

declare chunk_loop.simps [code]

definition chunkMessages :: "'a list \<Rightarrow> int \<Rightarrow> 'a list list option" where
  "chunkMessages messages chunkSize = chunk_loop messages chunkSize 0 []"

subsection \<open>Chunk sizing\<close>

text \<open>\<^verbatim>\<open>CONFIG\<close> is a mutable global that \<^verbatim>\<open>configureMultiWorker\<close> changes; here it is an
  argument.\<close>

record config =
  WORKER_COUNT :: int

definition CHUNK_SIZE_SMALL :: int where "CHUNK_SIZE_SMALL = 1000"
definition CHUNK_SIZE_MEDIUM :: int where "CHUNK_SIZE_MEDIUM = 2000"
definition CHUNK_SIZE_LARGE :: int where "CHUNK_SIZE_LARGE = 3000"
definition CHUNK_SIZE_XLARGE :: int where "CHUNK_SIZE_XLARGE = 5000"

text \<open>
  \<^verbatim>\<open>Math.ceil(totalMessages / targetTotalChunks)\<close> on integers. With a worker count
  of 0 the source divides by zero and the size is \<^verbatim>\<open>Infinity\<close>: that is \<open>None\<close>.
\<close>

definition calculateOptimalChunkSize :: "int \<Rightarrow> int \<Rightarrow> int option" where
  "calculateOptimalChunkSize totalMessages workerCount =
     (let minChunksPerWorker = 2;
          targetTotalChunks = workerCount * minChunksPerWorker
      in if totalMessages < 4000 then Some CHUNK_SIZE_SMALL
         else if totalMessages < 16000 then Some CHUNK_SIZE_MEDIUM
         else if totalMessages < 64000 then Some CHUNK_SIZE_LARGE
         else if targetTotalChunks = 0 then None
         else Some (max CHUNK_SIZE_XLARGE (- ((- totalMessages) div targetTotalChunks))))"

section \<open>Snapshot metadata and the record store (indexeddb-manager.ts)\<close>

datatype status = Processing | Completed | Errored

text \<open>
  \<^verbatim>\<open>interface SnapshotMetadata\<close>. The optional fields are \<open>JUndefined\<close> or \<open>None\<close> when
  absent. \<open>error\<close> holds the error whose message text the source stores.
\<close>

record SnapshotMetadata =
  snapshotId :: jsstring
  projectId :: jsval
  queueId :: jsval
  messageCount :: jsval
  totalMessages :: "int option"
  processedMessages :: int
  firstMessageDate :: jsval
  lastMessageDate :: jsval
  createdAt :: jsstring
  status :: status
  error :: "js_error option"

section \<open>Progress events (decrypt-snapshot-streaming.ts)\<close>

datatype stage = Downloading | Decrypting | StageProcessing | Saving | StageCompleted | StageError

text \<open>
  The percentage of a progress event. The two computed ones are
  \<^verbatim>\<open>65 + Math.floor((resumeFrom / totalMessages) * 30)\<close> and
  \<^verbatim>\<open>65 + Math.floor(Math.min(totalProcessed / denominator, 1) * 30)\<close>; they are kept as
  their operands, since the source computes them in floating point.
\<close>

datatype percent = Percent int | ResumePercent int int | SavingPercent int int

text \<open>The message of a progress event: which template of the source, and the numbers
  it is filled with.\<close>

datatype progress_message =
    MsgAlreadyLoaded
  | MsgDownloadingFile
  | MsgStatus jsstring
  | MsgProcessingData
  | MsgNoMessages
  | MsgAllCached
  | MsgResuming int
  | MsgInitializing int
  | MsgProcessingWith int int int
  | MsgResumeComplete int int int
  | MsgMultiWorkerComplete int int
  | MsgFailed

text \<open>
  \<^verbatim>\<open>interface StreamingProgress\<close>, without the four fields that hold wall-clock
  measurements (\<^verbatim>\<open>decryptDurationMs\<close>, \<^verbatim>\<open>insertDurationMs\<close>, \<^verbatim>\<open>totalDurationMs\<close>,
  \<^verbatim>\<open>throughputMessagesPerSec\<close>).
\<close>

record StreamingProgress =
  p_stage :: stage
  p_progress :: percent
  p_message :: progress_message
  p_processedMessages :: "int option"
  p_totalMessages :: "int option"
  p_error :: "js_error option"
  p_insertedMessages :: "int option"

definition progress_event :: "stage \<Rightarrow> percent \<Rightarrow> progress_message \<Rightarrow> StreamingProgress" where
  "progress_event s p m =
     \<lparr>p_stage = s, p_progress = p, p_message = m, p_processedMessages = None,
      p_totalMessages = None, p_error = None, p_insertedMessages = None\<rparr>"

section \<open>What a run does to the outside\<close>

text \<open>
  The effects of a run, in the order they happen: metadata rows written to the record
  store, progress events given to the caller, the call of \<^verbatim>\<open>decryptSnapshot\<close>, and the
  life of the worker pool. Message records are written by the workers only, each from
  a chunk it was given by \<^verbatim>\<open>processChunk\<close>.
\<close>

datatype effect =
    SaveMetadata SnapshotMetadata
  | Progress StreamingProgress
  | DecryptSnapshot
  | CreateWorkerPool int nat
  | ProcessChunk "jsval list" nat
  | TerminateWorkerPool

text \<open>The metadata table has the key path \<^verbatim>\<open>snapshotId\<close>: \<^verbatim>\<open>put\<close> replaces the row of
  the same id.\<close>

record world =
  metadata_store :: "SnapshotMetadata list"
  trace :: "effect list"

definition getMetadata :: "jsstring \<Rightarrow> world \<Rightarrow> SnapshotMetadata option" where
  "getMetadata sid w = find (\<lambda>m. snapshotId m = sid) (metadata_store w)"

definition saveMetadata :: "SnapshotMetadata \<Rightarrow> world \<Rightarrow> world" where
  "saveMetadata m w =
     w\<lparr>metadata_store := m # filter (\<lambda>x. snapshotId x \<noteq> snapshotId m) (metadata_store w),
       trace := trace w @ [SaveMetadata m]\<rparr>"

definition emit :: "effect \<Rightarrow> world \<Rightarrow> world" where
  "emit e w = w\<lparr>trace := trace w @ [e]\<rparr>"

definition onProgress :: "StreamingProgress \<Rightarrow> world \<Rightarrow> world" where
  "onProgress p w = emit (Progress p) w"

section \<open>The persistence path (decrypt-snapshot-streaming.ts)\<close>

record MetadataInitResult =
  metadata :: SnapshotMetadata
  skip :: bool

text \<open>
  What the run is given from outside: the clock (\<^verbatim>\<open>new Date().toISOString()\<close>), the
  \<^verbatim>\<open>PROGRESS\<close> messages \<open>(chunkIndex, saved, total)\<close> that the workers post while the
  pool runs, in the order they arrive, and the status strings and the outcome of
  \<^verbatim>\<open>decryptSnapshot\<close>.
\<close>

record env =
  now :: jsstring
  worker_progress :: "(int \<times> int \<times> int) list"
  decrypt_statuses :: "jsstring list"
  decrypt_outcome :: "js_error + jsval"

definition ensureProcessingMetadata :: "jsstring \<Rightarrow> env \<Rightarrow> world \<Rightarrow> MetadataInitResult \<times> world" where
  "ensureProcessingMetadata sid ev w =
     (let existingMetadata = getMetadata sid w
      in case existingMetadata of
           Some existing \<Rightarrow>
             if status existing = Completed
             then (\<lparr>metadata = existing, skip = True\<rparr>, w)
             else (let md = existing\<lparr>status := Processing, error := None\<rparr>
                   in (\<lparr>metadata = md, skip = False\<rparr>, saveMetadata md w))
         | None \<Rightarrow>
             (let md = \<lparr>snapshotId = sid, projectId = JUndefined, queueId = JUndefined,
                        messageCount = JNum (NInt 0), totalMessages = None,
                        processedMessages = 0, firstMessageDate = JUndefined,
                        lastMessageDate = JUndefined, createdAt = now ev,
                        status = Processing, error = None\<rparr>
              in (\<lparr>metadata = md, skip = False\<rparr>, saveMetadata md w)))"

text \<open>The \<^verbatim>\<open>catch\<close> block of both entry points: the stored row, if there is one, is
  rewritten with status \<^verbatim>\<open>error\<close>, and an error event is reported.\<close>

definition record_failure :: "jsstring \<Rightarrow> js_error \<Rightarrow> world \<Rightarrow> world" where
  "record_failure sid e w =
     (let w1 = (case getMetadata sid w of
                  Some errorMetadata \<Rightarrow>
                    saveMetadata (errorMetadata\<lparr>status := Errored, error := Some e\<rparr>) w
                | None \<Rightarrow> w)
      in onProgress ((progress_event StageError (Percent 0) MsgFailed)\<lparr>p_error := Some e\<rparr>) w1)"

text \<open>\<^verbatim>\<open>messages[i].created_at\<close>: a \<^verbatim>\<open>TypeError\<close> when the element is \<^verbatim>\<open>null\<close> or
  \<^verbatim>\<open>undefined\<close>.\<close>

definition created_at_of :: "('k, 'a) platform \<Rightarrow> jsval \<Rightarrow> js_error + jsval" where
  "created_at_of pf m =
     (if js_nullish m then Inl TypeError else Inr (obj_get pf m (ascii ''created_at'')))"

text \<open>The closure \<^verbatim>\<open>updateProgress\<close> with its two variables \<^verbatim>\<open>chunkProgress\<close> and
  \<^verbatim>\<open>totalProcessed\<close>.\<close>

record progress_state =
  chunkProgress :: "int \<rightharpoonup> (int \<times> int)"
  totalProcessed :: int

definition updateProgress ::
  "config \<Rightarrow> int \<Rightarrow> int \<Rightarrow> (int \<times> int \<times> int) \<Rightarrow> progress_state \<times> world \<Rightarrow> progress_state \<times> world" where
  "updateProgress cfg totalMsgs insertLen report sw =
     (case report of (chunkIndex, saved, total') \<Rightarrow>
      case sw of (st, w) \<Rightarrow>
       (let prevSaved = (case chunkProgress st chunkIndex of None \<Rightarrow> 0 | Some (s, t) \<Rightarrow> s);
            delta = saved - prevSaved;
            processed = totalProcessed st + delta;
            st' = \<lparr>chunkProgress = (chunkProgress st)(chunkIndex \<mapsto> (saved, total')),
                   totalProcessed = processed\<rparr>;
            denominator = (if totalMsgs \<noteq> 0 then totalMsgs
                           else if insertLen \<noteq> 0 then insertLen else 1)
        in (st', onProgress ((progress_event Saving (SavingPercent processed denominator)
                                (MsgProcessingWith (WORKER_COUNT cfg) processed denominator))
                              \<lparr>p_processedMessages := Some processed,
                               p_totalMessages := Some denominator\<rparr>) w)))"

text \<open>
  The body of the \<^verbatim>\<open>try\<close> block of \<^verbatim>\<open>cacheDecryptedSnapshotMultiWorker\<close>, in three
  parts, last first: \<open>cache_messages\<close> is the block from
  \<^verbatim>\<open>if (messagesToInsert.length === 0)\<close> to the end, \<open>cache_with_metadata\<close> the block
  from \<^verbatim>\<open>if (metadataInit.skip)\<close> up to there, and \<open>cache_try\<close> gets \<^verbatim>\<open>metadataInit\<close>
  (from \<^verbatim>\<open>options.metadata\<close>, or from \<^verbatim>\<open>ensureProcessingMetadata\<close>). The result is the error thrown, if any, whether the
  worker pool was created, and the world after; \<open>None\<close> is a run that never ends: a pool
  made with no worker never takes a chunk, so \<^verbatim>\<open>Promise.all\<close> over the \<^verbatim>\<open>processChunk\<close>
  promises never settles.
\<close>

definition cache_messages ::
  "config \<Rightarrow> env \<Rightarrow> SnapshotMetadata \<Rightarrow> int \<Rightarrow> int \<Rightarrow> jsval list \<Rightarrow> world
     \<Rightarrow> (js_error option \<times> bool \<times> world) option" where
  "cache_messages cfg ev md2 resumeFrom totalMessages' messagesToInsert w2 =
     (if length messagesToInsert = 0 then
        (let md3 = md2\<lparr>status := Completed, processedMessages := totalMessages'\<rparr>;
             w3 = saveMetadata md3 w2
         in Some (None, False,
              onProgress ((progress_event StageCompleted (Percent 100) MsgAllCached)
                 \<lparr>p_processedMessages := Some totalMessages', p_totalMessages := Some totalMessages',
                  p_insertedMessages := Some 0\<rparr>) w3))
      else
        (let insertLen = int (length messagesToInsert);
             w3 = onProgress
                ((progress_event Saving
                    (if resumeFrom > 0 \<and> totalMessages' > 0
                     then ResumePercent resumeFrom totalMessages' else Percent 65)
                    (if resumeFrom > 0 then MsgResuming resumeFrom
                     else MsgInitializing (WORKER_COUNT cfg)))
                  \<lparr>p_processedMessages := Some resumeFrom,
                   p_totalMessages := Some totalMessages'\<rparr>) w2;
             chunkSize = calculateOptimalChunkSize insertLen (WORKER_COUNT cfg)
         in case (case chunkSize of
                    Some c \<Rightarrow> chunkMessages messagesToInsert c
                  | None \<Rightarrow> Some [messagesToInsert]) of
              None \<Rightarrow> None
            | Some chunks \<Rightarrow>
          (let w4 = emit (CreateWorkerPool (WORKER_COUNT cfg) (length chunks)) w3;
               w5 = foldl (\<lambda>wx (chunk, index). emit (ProcessChunk chunk index) wx) w4
                      (zip chunks [0 ..< length chunks])
           in if WORKER_COUNT cfg \<le> 0 then None
              else
               (let w6 = snd (foldl (\<lambda>sw r. updateProgress cfg totalMessages' insertLen r sw)
                               (\<lparr>chunkProgress = Map.empty, totalProcessed = resumeFrom\<rparr>, w5)
                               (worker_progress ev));
                    md3 = md2\<lparr>status := Completed, processedMessages := totalMessages'\<rparr>;
                    w7 = saveMetadata md3 w6
                in Some (None, True,
                     onProgress ((progress_event StageCompleted (Percent 100)
                         (if resumeFrom > 0
                          then MsgResumeComplete insertLen totalMessages' (WORKER_COUNT cfg)
                          else MsgMultiWorkerComplete totalMessages' (WORKER_COUNT cfg)))
                       \<lparr>p_processedMessages := Some totalMessages', p_totalMessages := Some totalMessages',
                        p_insertedMessages := Some insertLen\<rparr>) w7)))))"

definition cache_with_metadata ::
  "('k, 'a) platform \<Rightarrow> config \<Rightarrow> env \<Rightarrow> jsval \<Rightarrow> MetadataInitResult \<Rightarrow> world
     \<Rightarrow> (js_error option \<times> bool \<times> world) option" where
  "cache_with_metadata pf cfg ev decryptedData metadataInit w1 =
    (if skip metadataInit then
       Some (None, False,
         onProgress ((progress_event StageCompleted (Percent 100) MsgAlreadyLoaded)
            \<lparr>p_processedMessages := Some (processedMessages (metadata metadataInit)),
             p_totalMessages := totalMessages (metadata metadataInit)\<rparr>) w1)
     else if js_nullish decryptedData then Some (Some TypeError, False, w1)
     else
      (let md = metadata metadataInit;
           projectId' = obj_get pf decryptedData (ascii ''projectId'');
           queueId' = obj_get pf decryptedData (ascii ''queueId'');
           messageCount' = obj_get pf decryptedData (ascii ''messageCount'');
           messages' = obj_get pf decryptedData (ascii ''messages'')
       in case messages' of
            JArr messages \<Rightarrow>
             (let totalMessages' = int (length messages) in
              if totalMessages' = 0 then
                (let md0 = md\<lparr>projectId := projectId', queueId := queueId',
                               messageCount := JNum (NInt 0), totalMessages := Some 0,
                               status := Completed, processedMessages := 0\<rparr>;
                     w2 = saveMetadata md0 w1
                 in Some (None, False,
                      onProgress ((progress_event StageCompleted (Percent 100) MsgNoMessages)
                         \<lparr>p_processedMessages := Some 0, p_totalMessages := Some 0,
                          p_insertedMessages := Some 0\<rparr>) w2))
              else
                (let resumeFrom = min (processedMessages md) totalMessages';
                     messagesToInsert = (if resumeFrom > 0
                                         then js_slice messages resumeFrom totalMessages'
                                         else messages);
                     md1 = md\<lparr>projectId := projectId', queueId := queueId',
                               messageCount := (if js_truthy messageCount' then messageCount'
                                                else JNum (NInt totalMessages')),
                               totalMessages := Some totalMessages'\<rparr>
                 in case created_at_of pf (hd messages) of
                      Inl e \<Rightarrow> Some (Some e, False, w1)
                    | Inr first \<Rightarrow>
                 case created_at_of pf (last messages) of
                      Inl e \<Rightarrow> Some (Some e, False, w1)
                    | Inr lst \<Rightarrow>
                  (let md2 = md1\<lparr>firstMessageDate := first, lastMessageDate := lst\<rparr>;
                       w2 = saveMetadata md2 w1
                   in cache_messages cfg ev md2 resumeFrom totalMessages' messagesToInsert w2)))
          | _ \<Rightarrow> Some (Some (Error (ascii ''Invalid snapshot format: missing messages array'')),
                       False, w1)))"

definition cache_try ::
  "('k, 'a) platform \<Rightarrow> config \<Rightarrow> env \<Rightarrow> jsstring \<Rightarrow> jsval \<Rightarrow> SnapshotMetadata option \<Rightarrow> world
     \<Rightarrow> (js_error option \<times> bool \<times> world) option" where
  "cache_try pf cfg ev sid decryptedData opt_metadata w =
    (case (case opt_metadata of
             Some m \<Rightarrow> (\<lparr>metadata = m, skip = False\<rparr>, w)
           | None \<Rightarrow> ensureProcessingMetadata sid ev w) of
       (metadataInit, w1) \<Rightarrow> cache_with_metadata pf cfg ev decryptedData metadataInit w1)"

text \<open>
  \<^verbatim>\<open>cacheDecryptedSnapshotMultiWorker(snapshotId, decryptedData, onProgress, options)\<close>:
  the \<^verbatim>\<open>try\<close> block, then \<^verbatim>\<open>catch\<close> (which throws the error again) and \<^verbatim>\<open>finally\<close>
  (which ends the pool if there is one).
\<close>

definition cacheDecryptedSnapshotMultiWorker ::
  "('k, 'a) platform \<Rightarrow> config \<Rightarrow> env \<Rightarrow> jsstring \<Rightarrow> jsval \<Rightarrow> SnapshotMetadata option \<Rightarrow> world
     \<Rightarrow> (js_error option \<times> world) option" where
  "cacheDecryptedSnapshotMultiWorker pf cfg ev sid decryptedData opt_metadata w =
     (case cache_try pf cfg ev sid decryptedData opt_metadata w of
        None \<Rightarrow> None
      | Some (thrown, pool, w1) \<Rightarrow>
          (let w2 = (case thrown of None \<Rightarrow> w1 | Some e \<Rightarrow> record_failure sid e w1);
               w3 = (if pool then emit TerminateWorkerPool w2 else w2)
           in Some (thrown, w3)))"

text \<open>The callback that \<^verbatim>\<open>decryptAndStreamToIndexedDBMultiWorker\<close> gives to
  \<^verbatim>\<open>decryptSnapshot\<close>.\<close>

definition decrypt_status :: "jsstring \<Rightarrow> world \<Rightarrow> world" where
  "decrypt_status s w =
     (if js_includes s (ascii ''Downloading'')
      then onProgress (progress_event Downloading (Percent 10) (MsgStatus s)) w
      else if js_includes s (ascii ''Importing'')
      then onProgress (progress_event Decrypting (Percent 30) (MsgStatus s)) w
      else if js_includes s (ascii ''Decrypting'')
      then onProgress (progress_event Decrypting (Percent 50) (MsgStatus s)) w
      else w)"

definition stream_try ::
  "('k, 'a) platform \<Rightarrow> config \<Rightarrow> env \<Rightarrow> jsstring \<Rightarrow> world \<Rightarrow> (js_error option \<times> world) option" where
  "stream_try pf cfg ev sid w =
     (case ensureProcessingMetadata sid ev w of (init, w1) \<Rightarrow>
      if skip init then
        Some (None,
          onProgress ((progress_event StageCompleted (Percent 100) MsgAlreadyLoaded)
             \<lparr>p_processedMessages := Some (processedMessages (metadata init)),
              p_totalMessages := totalMessages (metadata init)\<rparr>) w1)
      else
       (let w2 = onProgress (progress_event Downloading (Percent 0) MsgDownloadingFile) w1;
            w3 = emit DecryptSnapshot w2;
            w4 = foldl (\<lambda>wx s. decrypt_status s wx) w3 (decrypt_statuses ev)
        in case decrypt_outcome ev of
             Inl e \<Rightarrow> Some (Some e, w4)
           | Inr decryptedData \<Rightarrow>
              (let w5 = onProgress (progress_event StageProcessing (Percent 60) MsgProcessingData) w4
               in cacheDecryptedSnapshotMultiWorker pf cfg ev sid decryptedData
                    (Some (metadata init)) w5)))"

text \<open>\<^verbatim>\<open>decryptAndStreamToIndexedDBMultiWorker(snapshotId, fileUrl, privateKeyPem,
  onProgress)\<close>: the result is the error it throws, if any, and the world after.\<close>

definition decryptAndStreamToIndexedDBMultiWorker ::
  "('k, 'a) platform \<Rightarrow> config \<Rightarrow> env \<Rightarrow> jsstring \<Rightarrow> world \<Rightarrow> (js_error option \<times> world) option" where
  "decryptAndStreamToIndexedDBMultiWorker pf cfg ev sid w =
     (case stream_try pf cfg ev sid w of
        None \<Rightarrow> None
      | Some (None, w1) \<Rightarrow> Some (None, w1)
      | Some (Some e, w1) \<Rightarrow> Some (Some e, record_failure sid e w1))"

section \<open>The batch worker (inline worker code, decrypt-snapshot-streaming.ts)\<close>


text \<open>
  The messages a worker posts to the pool. \<^verbatim>\<open>PROGRESS\<close> carries \<open>chunkIndex\<close>, \<open>saved\<close>
  and \<open>total\<close>; \<^verbatim>\<open>COMPLETE\<close> carries \<open>chunkIndex\<close> and \<open>saved\<close> (its duration is a
  wall-clock measurement and is left out); \<^verbatim>\<open>ERROR\<close> carries \<open>chunkIndex\<close> and the error
  whose message is sent.
\<close>

datatype worker_message =
    PROGRESS nat int int
  | COMPLETE nat int
  | ERROR nat js_error

text \<open>
  What a worker does while it handles one \<^verbatim>\<open>SAVE_BATCH\<close> message: it calls
  \<^verbatim>\<open>saveMessagesBatch\<close> (one attempt), waits (\<^verbatim>\<open>setTimeout\<close> with the delay
  \<^verbatim>\<open>BASE_BACKOFF_MS * attempt + Math.random() * 200\<close>, kept as its base part and the
  random number drawn), and posts messages.
\<close>

datatype 'r worker_effect =
    Attempt nat
  | Sleep int 'r
  | Post worker_message






section \<open>The worker pool (class WorkerPool, decrypt-snapshot-streaming.ts)\<close>

text \<open>
  The pool: the indices of the idle workers and the queue of tasks, both first in first
  out, and what it has done: the chunks posted to workers (\<open>dispatched\<close>, with the
  worker's index) and the progress given to its callback.
\<close>

record 'c pool =
  workerCount :: nat
  availableWorkers :: "nat list"
  taskQueue :: "('c \<times> nat) list"
  dispatched :: "(nat \<times> 'c \<times> nat) list"
  progress_seen :: "(nat \<times> int \<times> int) list"

definition new_pool :: "nat \<Rightarrow> 'c pool" where
  "new_pool n = \<lparr>workerCount = n, availableWorkers = [0 ..< n], taskQueue = [],
                 dispatched = [], progress_seen = []\<rparr>"

definition processNextTask :: "'c pool \<Rightarrow> 'c pool" where
  "processNextTask p =
     (if taskQueue p = [] \<or> availableWorkers p = [] then p
      else (case hd (taskQueue p) of (chunk, chunkIndex) \<Rightarrow>
              p\<lparr>taskQueue := tl (taskQueue p),
                availableWorkers := tl (availableWorkers p),
                dispatched := dispatched p @ [(hd (availableWorkers p), chunk, chunkIndex)]\<rparr>))"

definition processChunk :: "'c \<Rightarrow> nat \<Rightarrow> 'c pool \<Rightarrow> 'c pool" where
  "processChunk chunk chunkIndex p =
     processNextTask (p\<lparr>taskQueue := taskQueue p @ [(chunk, chunkIndex)]\<rparr>)"

definition handleWorkerMessage :: "nat \<Rightarrow> worker_message \<Rightarrow> 'c pool \<Rightarrow> 'c pool" where
  "handleWorkerMessage workerIndex data p =
     (case data of
        PROGRESS chunkIndex saved total' \<Rightarrow>
          p\<lparr>progress_seen := progress_seen p @ [(chunkIndex, saved, total')]\<rparr>
      | COMPLETE chunkIndex saved \<Rightarrow>
          processNextTask (p\<lparr>availableWorkers := availableWorkers p @ [workerIndex]\<rparr>)
      | ERROR chunkIndex err \<Rightarrow>
          processNextTask (p\<lparr>availableWorkers := availableWorkers p @ [workerIndex]\<rparr>))"


text \<open>
  A run of the pool: all chunks are submitted in order, as
  \<^verbatim>\<open>Promise.all(chunks.map((chunk, index) => workerPool.processChunk(chunk, index)))\<close>
  does, and then the workers' last messages arrive: \<open>(workerIndex, failed)\<close> is
  \<^verbatim>\<open>ERROR\<close> from that worker when \<open>failed\<close>, and \<^verbatim>\<open>COMPLETE\<close> otherwise.
\<close>

definition submit_all :: "'c list \<Rightarrow> 'c pool \<Rightarrow> 'c pool" where
  "submit_all chunks p =
     foldl (\<lambda>q (chunk, index). processChunk chunk index q) p (zip chunks [0 ..< length chunks])"

definition worker_reply :: "nat \<times> bool \<Rightarrow> 'c pool \<Rightarrow> 'c pool" where
  "worker_reply r p =
     (case r of (workerIndex, failed) \<Rightarrow>
        handleWorkerMessage workerIndex
          (if failed then ERROR 0 OperationError else COMPLETE 0 0) p)"

definition run_pool :: "nat \<Rightarrow> 'c list \<Rightarrow> (nat \<times> bool) list \<Rightarrow> 'c pool" where
  "run_pool n chunks replies = foldl (\<lambda>p r. worker_reply r p) (submit_all chunks (new_pool n)) replies"

section \<open>Double-precision numbers\<close>

text \<open>
  A JavaScript number is an IEEE 754 binary64 value: a finite number, which is a
  rational, one of the two infinities, or \<^verbatim>\<open>NaN\<close>. The two zeros are one value here:
  the program only adds, subtracts and compares its numbers, and no result of these
  depends on the sign of a zero.
\<close>

datatype double = Finite rat | PosInfinity | NegInfinity | NotANumber

text \<open>The number of binary digits of a natural number.\<close>

fun bit_length :: "nat \<Rightarrow> nat" where
  "bit_length n = (if n = 0 then 0 else Suc (bit_length (n div 2)))"

declare bit_length.simps [simp del]

text \<open>\<open>pow2 e\<close> is \<open>2\<^sup>e\<close>, and \<open>floor_log2 x\<close> is the exponent \<open>e\<close> with
  \<open>2\<^sup>e \<le> x < 2\<^sup>e\<^sup>+\<^sup>1\<close> of a positive \<open>x\<close>.\<close>

definition pow2 :: "int \<Rightarrow> rat" where
  "pow2 e = (if 0 \<le> e then 2 ^ nat e else 1 / 2 ^ nat (- e))"

definition floor_log2 :: "rat \<Rightarrow> int" where
  "floor_log2 x =
     (if 1 \<le> x then int (bit_length (nat \<lfloor>x\<rfloor>)) - 1
      else - int (bit_length (nat (\<lceil>1 / x\<rceil> - 1))))"

text \<open>The nearest integer, the even one of the two when they are equally near.\<close>

definition round_half_even :: "rat \<Rightarrow> int" where
  "round_half_even x =
     (let n = \<lfloor>x\<rfloor>; r = x - of_int n
      in if r < 1 / 2 then n else if 1 / 2 < r then n + 1 else if even n then n else n + 1)"

text \<open>
  The double nearest to a rational (round to nearest, ties to even): the significand
  has 53 binary digits, the exponent of a normal number is at least \<open>-1022\<close>, below
  which the spacing stays \<open>2\<^sup>-\<^sup>1\<^sup>0\<^sup>7\<^sup>4\<close>, and a result of magnitude \<open>2\<^sup>1\<^sup>0\<^sup>2\<^sup>4\<close> or more is an
  infinity.
\<close>

definition to_double :: "rat \<Rightarrow> double" where
  "to_double x =
     (if x = 0 then Finite 0
      else
        (let e = max (floor_log2 \<bar>x\<bar>) (- 1022);
             ulp = pow2 (e - 52);
             y = of_int (round_half_even (x / ulp)) * ulp
         in if pow2 1024 \<le> \<bar>y\<bar> then (if 0 < x then PosInfinity else NegInfinity)
            else Finite y))"

text \<open>\<^verbatim>\<open>a + b\<close>, \<^verbatim>\<open>-a\<close>, \<^verbatim>\<open>a - b\<close> and \<^verbatim>\<open>a <= b\<close>.\<close>

fun double_add :: "double \<Rightarrow> double \<Rightarrow> double" where
  "double_add (Finite x) (Finite y) = to_double (x + y)"
| "double_add NotANumber b = NotANumber"
| "double_add a NotANumber = NotANumber"
| "double_add PosInfinity NegInfinity = NotANumber"
| "double_add NegInfinity PosInfinity = NotANumber"
| "double_add PosInfinity b = PosInfinity"
| "double_add a PosInfinity = PosInfinity"
| "double_add NegInfinity b = NegInfinity"
| "double_add a NegInfinity = NegInfinity"

fun double_neg :: "double \<Rightarrow> double" where
  "double_neg (Finite x) = Finite (- x)"
| "double_neg PosInfinity = NegInfinity"
| "double_neg NegInfinity = PosInfinity"
| "double_neg NotANumber = NotANumber"

definition double_sub :: "double \<Rightarrow> double \<Rightarrow> double" where
  "double_sub a b = double_add a (double_neg b)"

fun double_le :: "double \<Rightarrow> double \<Rightarrow> bool" where
  "double_le (Finite x) (Finite y) = (x \<le> y)"
| "double_le NotANumber b = False"
| "double_le a NotANumber = False"
| "double_le NegInfinity b = True"
| "double_le a PosInfinity = True"
| "double_le a b = False"

section \<open>Prefetch scheduling of a bulk run (handleBulkLoadAll, app/page.tsx)\<close>

text \<open>
  A snapshot of the list is its id and its estimated size in MB, the result of
  \<^verbatim>\<open>parseFileSizeMb(snapshot.file_size)\<close>: a double that is not negative, or
  \<^verbatim>\<open>Infinity\<close>.
\<close>

type_synonym snapshot = "jsstring \<times> double"

definition PREFETCH_SIZE_LIMIT_MB :: double where "PREFETCH_SIZE_LIMIT_MB = Finite 25"

text \<open>
  The variables of the closure: \<^verbatim>\<open>nextToSchedule\<close>, \<^verbatim>\<open>inFlightMb\<close> and the map
  \<^verbatim>\<open>activePreparations\<close> (keyed by snapshot id). Besides them, \<open>in_flight\<close> holds the
  preparations that have been started and have not settled yet (the pending promises
  of \<^verbatim>\<open>stageSnapshotToStorage\<close>), and \<open>starts\<close> records, for every call of
  \<^verbatim>\<open>startPreparation\<close>, the snapshot started, all the preparations in flight just
  after, the new one included, and the value of \<^verbatim>\<open>inFlightMb\<close> just before.
\<close>

record prefetch_state =
  nextToSchedule :: nat
  inFlightMb :: double
  activePreparations :: "(jsstring \<times> double) list"
  in_flight :: "snapshot list"
  starts :: "(snapshot \<times> snapshot list \<times> double) list"

definition prefetch_init :: prefetch_state where
  "prefetch_init = \<lparr>nextToSchedule = 0, inFlightMb = Finite 0, activePreparations = [],
                    in_flight = [], starts = []\<rparr>"

text \<open>\<^verbatim>\<open>Map.prototype.set\<close> and \<^verbatim>\<open>Map.prototype.delete\<close>.\<close>

definition map_set :: "'k \<Rightarrow> 'v \<Rightarrow> ('k \<times> 'v) list \<Rightarrow> ('k \<times> 'v) list" where
  "map_set k v m =
     (if k \<in> fst ` set m then map (\<lambda>(k', v'). if k' = k then (k', v) else (k', v')) m
      else m @ [(k, v)])"

definition map_delete :: "'k \<Rightarrow> ('k \<times> 'v) list \<Rightarrow> ('k \<times> 'v) list" where
  "map_delete k m = filter (\<lambda>(k', v'). k' \<noteq> k) m"

definition startPreparation :: "snapshot \<Rightarrow> double \<Rightarrow> prefetch_state \<Rightarrow> prefetch_state" where
  "startPreparation snapshot sizeMb s =
     s\<lparr>inFlightMb := double_add (inFlightMb s) sizeMb,
       activePreparations := map_set (fst snapshot) sizeMb (activePreparations s),
       in_flight := in_flight s @ [snapshot],
       starts := starts s @ [(snapshot, in_flight s @ [snapshot], inFlightMb s)]\<rparr>"

function schedulePrefetch :: "snapshot list \<Rightarrow> prefetch_state \<Rightarrow> prefetch_state" where
  "schedulePrefetch allSnapshots s =
     (if nextToSchedule s < length allSnapshots then
        (let snapshot = allSnapshots ! nextToSchedule s;
             sizeMb = snd snapshot;
             canStart = (double_le (double_add (inFlightMb s) sizeMb) PREFETCH_SIZE_LIMIT_MB
                         \<or> length (activePreparations s) = 0)
         in if \<not> canStart then s
            else schedulePrefetch allSnapshots
                   ((startPreparation snapshot sizeMb s)\<lparr>nextToSchedule := nextToSchedule s + 1\<rparr>))
      else s)"
  by pat_completeness auto
termination
  by (relation "measure (\<lambda>(allSnapshots, s). length allSnapshots - nextToSchedule s)")
     (auto simp: startPreparation_def)

declare schedulePrefetch.simps [simp del]

text \<open>
  The \<^verbatim>\<open>finally\<close> handler of a preparation, run when the preparation at position \<open>i\<close> of
  those in flight settles (staged or failed): its size is taken off \<^verbatim>\<open>inFlightMb\<close>, its
  id is deleted from \<^verbatim>\<open>activePreparations\<close>, and \<^verbatim>\<open>schedulePrefetch\<close> runs again.
\<close>

definition preparation_settled :: "snapshot list \<Rightarrow> nat \<Rightarrow> prefetch_state \<Rightarrow> prefetch_state" where
  "preparation_settled allSnapshots i s =
     (if i < length (in_flight s) then
        (case in_flight s ! i of (snapshotId', sizeMb) \<Rightarrow>
           schedulePrefetch allSnapshots
             (s\<lparr>inFlightMb := double_sub (inFlightMb s) sizeMb,
               activePreparations := map_delete snapshotId' (activePreparations s),
               in_flight := take i (in_flight s) @ drop (Suc i) (in_flight s)\<rparr>))
      else s)"

text \<open>A bulk run: the first call of \<^verbatim>\<open>schedulePrefetch\<close>, then the preparations settle
  in some order (each event names the position, among those in flight, of the one that
  settles).\<close>

definition bulk_run :: "snapshot list \<Rightarrow> nat list \<Rightarrow> prefetch_state" where
  "bulk_run allSnapshots events =
     foldl (\<lambda>s i. preparation_settled allSnapshots i s)
       (schedulePrefetch allSnapshots prefetch_init) events"

text \<open>
  The property of one start as the scheduler computes it: the counter \<^verbatim>\<open>inFlightMb\<close>
  plus the new size, added as doubles, is within the budget, or the new preparation is
  the only one in flight.
\<close>

definition start_within_budget :: "snapshot \<times> snapshot list \<times> double \<Rightarrow> bool" where
  "start_within_budget st =
     (case st of (new, flying, counter) \<Rightarrow>
        double_le (double_add counter (snd new)) PREFETCH_SIZE_LIMIT_MB \<or> flying = [new])"

text \<open>
  The property of one start on the sizes themselves: the sizes of all preparations in
  flight, the new one included, sum to at most 25, or the new one is the only one in
  flight. \<open>exact_total\<close> is the sum, with no rounding, of sizes that are finite.
\<close>

definition mb_value :: "double \<Rightarrow> rat" where
  "mb_value d = (case d of Finite x \<Rightarrow> x | _ \<Rightarrow> 0)"

definition exact_total :: "snapshot list \<Rightarrow> rat" where
  "exact_total flying = sum_list (map (\<lambda>p. mb_value (snd p)) flying)"

definition sizes_within_budget :: "snapshot \<times> snapshot list \<times> double \<Rightarrow> bool" where
  "sizes_within_budget st =
     (case st of (new, flying, counter) \<Rightarrow> exact_total flying \<le> 25 \<or> flying = [new])"

text \<open>The invariant of the scheduler on a list of snapshots with distinct ids.\<close>

definition prefetch_inv :: "snapshot list \<Rightarrow> prefetch_state \<Rightarrow> bool" where
  "prefetch_inv allSnapshots s =
     (activePreparations s = in_flight s
      \<and> distinct (map fst (in_flight s))
      \<and> set (in_flight s) \<subseteq> set (take (nextToSchedule s) allSnapshots)
      \<and> list_all start_within_budget (starts s))"

text \<open>
  Sizes that are multiples of \<open>2\<^sup>-\<^sup>k\<close>: \<open>dyadic k n\<close> is \<open>n / 2\<^sup>k\<close>. When the sizes of
  a list are such multiples and all together less than \<open>2\<^sup>5\<^sup>3\<^sup>-\<^sup>k\<close>, no sum or
  difference that the scheduler computes is rounded.
\<close>

definition dyadic :: "nat \<Rightarrow> nat \<Rightarrow> double" where
  "dyadic k n = Finite (of_nat n / 2 ^ k)"

definition exact_sizes :: "nat \<Rightarrow> snapshot list \<Rightarrow> bool" where
  "exact_sizes k allSnapshots =
     (k \<le> 1074
      \<and> list_all (\<lambda>p. snd p = dyadic k (nat \<lfloor>mb_value (snd p) * 2 ^ k\<rfloor>)) allSnapshots
      \<and> exact_total allSnapshots * 2 ^ k < 2 ^ 53)"

text \<open>The second invariant, of runs on sizes that are not rounded: the counter is the sum
  of the sizes in flight, and every start was within the budget on the sizes
  themselves.\<close>

definition exact_inv :: "prefetch_state \<Rightarrow> bool" where
  "exact_inv s = (inFlightMb s = Finite (exact_total (in_flight s))
                  \<and> list_all sizes_within_budget (starts s))"

section \<open>Text decoding (\<^verbatim>\<open>new TextDecoder().decode(bytes)\<close>)\<close>

text \<open>
  The UTF-8 decoder of the Encoding Standard, in replacement mode. Its state is the
  number of continuation bytes still needed, the code point built so far, and the
  bounds on the next byte; \<^verbatim>\<open>b & 0x1F\<close>, \<^verbatim>\<open>b & 0xF\<close>, \<^verbatim>\<open>b & 7\<close> and \<^verbatim>\<open>b & 0x3F\<close> are
  written as remainders. An ill-formed sequence gives U+FFFD, and the byte that ended it
  is read again.
\<close>

function utf8_decode :: "nat \<Rightarrow> nat \<Rightarrow> nat \<Rightarrow> nat \<Rightarrow> nat list \<Rightarrow> nat list" where
  "utf8_decode needed cp lower upper [] = (if needed \<noteq> 0 then [0xFFFD] else [])"
| "utf8_decode needed cp lower upper (b # bs) =
     (if needed = 0 then
        (if b \<le> 0x7F then b # utf8_decode 0 0 0x80 0xBF bs
         else if 0xC2 \<le> b \<and> b \<le> 0xDF then utf8_decode 1 (b mod 32) 0x80 0xBF bs
         else if 0xE0 \<le> b \<and> b \<le> 0xEF then
           utf8_decode 2 (b mod 16) (if b = 0xE0 then 0xA0 else 0x80)
             (if b = 0xED then 0x9F else 0xBF) bs
         else if 0xF0 \<le> b \<and> b \<le> 0xF4 then
           utf8_decode 3 (b mod 8) (if b = 0xF0 then 0x90 else 0x80)
             (if b = 0xF4 then 0x8F else 0xBF) bs
         else 0xFFFD # utf8_decode 0 0 0x80 0xBF bs)
      else if b < lower \<or> upper < b then 0xFFFD # utf8_decode 0 0 0x80 0xBF (b # bs)
      else if needed = 1 then (cp * 64 + b mod 64) # utf8_decode 0 0 0x80 0xBF bs
      else utf8_decode (needed - 1) (cp * 64 + b mod 64) 0x80 0xBF bs)"
  by pat_completeness auto
termination
  by (relation "measure (\<lambda>(needed, cp, lower, upper, bs).
                  2 * length bs + (if needed = 0 then 0 else 1))") auto

declare utf8_decode.simps(2) [simp del]

text \<open>The decoder drops a byte order mark at the start, and the string holds each code
  point as one UTF-16 code unit or, from U+10000, as a surrogate pair.\<close>

definition strip_bom :: "nat list \<Rightarrow> nat list" where
  "strip_bom cps = (case cps of [] \<Rightarrow> [] | c # cs \<Rightarrow> if c = 0xFEFF then cs else c # cs)"

definition utf16_units :: "nat \<Rightarrow> jsstring" where
  "utf16_units c =
     (if c < 0x10000 then [word_of_nat c]
      else [word_of_nat (0xD800 + (c - 0x10000) div 1024),
            word_of_nat (0xDC00 + (c - 0x10000) mod 1024)])"

definition text_decode :: "byte list \<Rightarrow> jsstring" where
  "text_decode bytes =
     concat (map utf16_units (strip_bom (utf8_decode 0 0 0x80 0xBF (map unat bytes))))"

definition OSNP_MAGIC :: "byte list" where
  "OSNP_MAGIC = [0x4F, 0x53, 0x4E, 0x50]"

section \<open>The binary decoder (decodeMsgpack, decrypt-snapshot-streaming-full-worker.ts)\<close>

text \<open>
  An offset is a JavaScript number: an integer, or \<^verbatim>\<open>NaN\<close> once \<^verbatim>\<open>undefined\<close> has been
  added to it. \<open>byte_at buffer i\<close> is \<^verbatim>\<open>buffer[i]\<close>: \<^verbatim>\<open>undefined\<close> (\<open>None\<close>) outside the
  buffer. In \<^verbatim>\<open>|\<close> and \<^verbatim>\<open><<\<close> an operand is a 32-bit integer and \<^verbatim>\<open>undefined\<close> is 0.
\<close>

datatype index = Idx int | NaN

definition index_add :: "index \<Rightarrow> int \<Rightarrow> index" where
  "index_add i n = (case i of Idx k \<Rightarrow> Idx (k + n) | NaN \<Rightarrow> NaN)"

definition byte_at :: "byte list \<Rightarrow> int \<Rightarrow> byte option" where
  "byte_at buffer i =
     (if 0 \<le> i \<and> i < int (length buffer) then Some (buffer ! nat i) else None)"

definition to_int32 :: "byte option \<Rightarrow> 32 word" where
  "to_int32 b = (case b of None \<Rightarrow> 0 | Some v \<Rightarrow> ucast v)"

text \<open>\<^verbatim>\<open>(buffer[i] << 8) | buffer[i + 1]\<close> and
  \<^verbatim>\<open>(buffer[i] << 24) | (buffer[i + 1] << 16) | (buffer[i + 2] << 8) | buffer[i + 3]\<close>.\<close>

definition be16 :: "byte list \<Rightarrow> int \<Rightarrow> 32 word" where
  "be16 buffer i = push_bit 8 (to_int32 (byte_at buffer i)) OR to_int32 (byte_at buffer (i + 1))"

definition be32 :: "byte list \<Rightarrow> int \<Rightarrow> 32 word" where
  "be32 buffer i =
     push_bit 24 (to_int32 (byte_at buffer i)) OR push_bit 16 (to_int32 (byte_at buffer (i + 1)))
       OR push_bit 8 (to_int32 (byte_at buffer (i + 2))) OR to_int32 (byte_at buffer (i + 3))"

text \<open>The loop of \<^verbatim>\<open>readStr\<close> and \<^verbatim>\<open>readBin\<close>:
  \<^verbatim>\<open>for (let i = 0; i < lenBytes; i++) len = (len << 8) | buffer[offset + 1 + i]\<close>.\<close>

fun read_len :: "byte list \<Rightarrow> int \<Rightarrow> nat \<Rightarrow> 32 word \<Rightarrow> 32 word" where
  "read_len buffer i 0 len = len"
| "read_len buffer i (Suc n) len =
     read_len buffer (i + 1) n (push_bit 8 len OR to_int32 (byte_at buffer i))"

definition readStr :: "byte list \<Rightarrow> int \<Rightarrow> nat \<Rightarrow> jsval \<times> index" where
  "readStr buffer offset lenBytes =
     (let len = sint (read_len buffer (offset + 1) lenBytes 0);
          offset1 = offset + 1 + int lenBytes;
          s = text_decode (js_slice buffer offset1 (offset1 + len))
      in (JStr s, Idx (offset1 + len)))"

definition readBin :: "byte list \<Rightarrow> int \<Rightarrow> nat \<Rightarrow> jsval \<times> index" where
  "readBin buffer offset lenBytes =
     (let len = sint (read_len buffer (offset + 1) lenBytes 0);
          offset1 = offset + 1 + int lenBytes;
          v = js_slice buffer offset1 (offset1 + len)
      in (JBytes v, Idx (offset1 + len)))"

text \<open>
  \<^verbatim>\<open>new DataView(buffer.buffer, buffer.byteOffset + i, n)\<close>, for a buffer that is the whole
  of its \<^verbatim>\<open>ArrayBuffer\<close> (as every buffer given to the decoder is) and \<open>0 \<le> i\<close>: a
  \<^verbatim>\<open>RangeError\<close> when the view does not fit. \<open>be_word\<close> reads bytes as one big-endian
  number.
\<close>

definition data_view :: "byte list \<Rightarrow> int \<Rightarrow> int \<Rightarrow> js_error + byte list" where
  "data_view buffer i n =
     (if i + n \<le> int (length buffer) then Inr (js_slice buffer i (i + n)) else Inl RangeError)"

definition be_word :: "byte list \<Rightarrow> 'w::len word" where
  "be_word bytes = foldl (\<lambda>acc b. push_bit 8 acc OR ucast b) 0 bytes"

text \<open>\<^verbatim>\<open>Number(v)\<close> for a 64-bit \<^verbatim>\<open>BigInt\<close>: the nearest double, ties to even; integers of
  at most 53 bits are kept.\<close>

definition number_of_bigint :: "int \<Rightarrow> int" where
  "number_of_bigint v =
     (let a = nat \<bar>v\<bar>; n = bit_length a
      in if n \<le> 53 then v
         else (let e = n - 53; q = a div 2 ^ e; r = a mod 2 ^ e; half = 2 ^ (e - 1);
                   q' = (if half < r \<or> (r = half \<and> odd q) then q + 1 else q)
               in sgn v * int (q' * 2 ^ e)))"

text \<open>The text of the error for an unknown tag:
  \<^verbatim>\<open>`Unsupported msgpack type 0x${type?.toString(16)} at offset ${offset}`\<close>.\<close>

definition hex_digit :: "nat \<Rightarrow> char" where
  "hex_digit d = ''0123456789abcdef'' ! d"

fun hex_string :: "nat \<Rightarrow> string" where
  "hex_string n = (if n < 16 then [hex_digit n] else hex_string (n div 16) @ [hex_digit (n mod 16)])"

fun dec_string :: "nat \<Rightarrow> string" where
  "dec_string n = (if n < 10 then [hex_digit n] else dec_string (n div 10) @ [hex_digit (n mod 10)])"

declare hex_string.simps [simp del] dec_string.simps [simp del]

definition index_string :: "index \<Rightarrow> string" where
  "index_string i = (case i of
       NaN \<Rightarrow> ''NaN''
     | Idx k \<Rightarrow> if k < 0 then ''-'' @ dec_string (nat (- k)) else dec_string (nat k))"

definition unsupported_message :: "byte option \<Rightarrow> index \<Rightarrow> jsstring" where
  "unsupported_message type offset =
     ascii (''Unsupported msgpack type 0x''
            @ (case type of None \<Rightarrow> ''undefined'' | Some t \<Rightarrow> hex_string (unat t))
            @ '' at offset '' @ index_string offset)"

text \<open>The tags that the decoder has a branch for, in the order of its tests.\<close>

definition tag_defined :: "byte \<Rightarrow> bool" where
  "tag_defined t =
     (t = 0xc0 \<or> t = 0xc2 \<or> t = 0xc3 \<or> t \<le> 0x7f \<or> 0xe0 \<le> t
      \<or> t AND 0xe0 = 0xa0 \<or> t AND 0xf0 = 0x80 \<or> t AND 0xf0 = 0x90
      \<or> t \<in> {0xc4, 0xc5, 0xc6, 0xc7, 0xc8, 0xc9, 0xd4, 0xd5, 0xd6, 0xd7, 0xd8, 0xca, 0xcb,
               0xcc, 0xcd, 0xce, 0xcf, 0xd0, 0xd1, 0xd2, 0xd3, 0xd9, 0xda, 0xdb,
               0xdc, 0xdd, 0xde, 0xdf})"

text \<open>An extension value of \<open>n\<close> bytes after a header of \<open>hdr\<close> bytes.\<close>

definition ext_value :: "byte list \<Rightarrow> int \<Rightarrow> int \<Rightarrow> int \<Rightarrow> jsval \<times> index" where
  "ext_value buffer offset hdr n =
     (JBytes (js_slice buffer (offset + hdr) (offset + hdr + n)), Idx (offset + hdr + n))"

text \<open>
  \<^verbatim>\<open>decodeMsgpack(buffer, offset)\<close>. The first argument after the runtime is the depth of
  recursion that the call stack still allows: at 0 the engine throws a \<^verbatim>\<open>RangeError\<close>.
  \<open>decode_array\<close> and \<open>decode_map\<close> are the loops over the elements of an array and over
  the key-value pairs of a map.
\<close>

function decodeMsgpack ::
      "('k, 'a) platform \<Rightarrow> nat \<Rightarrow> byte list \<Rightarrow> index \<Rightarrow> js_error + (jsval \<times> index)"
  and decode_array ::
      "('k, 'a) platform \<Rightarrow> nat \<Rightarrow> byte list \<Rightarrow> nat \<Rightarrow> index \<Rightarrow> jsval list
         \<Rightarrow> js_error + (jsval \<times> index)"
  and decode_map ::
      "('k, 'a) platform \<Rightarrow> nat \<Rightarrow> byte list \<Rightarrow> nat \<Rightarrow> index \<Rightarrow> jsval
         \<Rightarrow> js_error + (jsval \<times> index)"
where
  "decodeMsgpack pf 0 buffer offset = Inl RangeError"
| "decodeMsgpack pf (Suc stack) buffer offset =
     (case offset of
        NaN \<Rightarrow> Inl (Error (unsupported_message None NaN))
      | Idx k \<Rightarrow>
     (case byte_at buffer k of
        None \<Rightarrow> Inl (Error (unsupported_message None (Idx k)))
      | Some type \<Rightarrow>
          if type = 0xc0 then Inr (JNull, Idx (k + 1))
          else if type = 0xc2 then Inr (JBool False, Idx (k + 1))
          else if type = 0xc3 then Inr (JBool True, Idx (k + 1))
          else if type \<le> 0x7f then Inr (JNum (NInt (uint type)), Idx (k + 1))
          else if 0xe0 \<le> type then Inr (JNum (NInt (uint type - 0x100)), Idx (k + 1))
          else if type AND 0xe0 = 0xa0 then
            (let len = uint (type AND 0x1f)
             in Inr (JStr (text_decode (js_slice buffer (k + 1) (k + 1 + len))), Idx (k + 1 + len)))
          else if type AND 0xf0 = 0x80 then
            decode_map pf stack buffer (unat (type AND 0x0f)) (Idx (k + 1)) (JObj [] ObjectPrototype)
          else if type AND 0xf0 = 0x90 then
            decode_array pf stack buffer (unat (type AND 0x0f)) (Idx (k + 1)) []
          else if type = 0xc4 then Inr (readBin buffer k 1)
          else if type = 0xc5 then Inr (readBin buffer k 2)
          else if type = 0xc6 then Inr (readBin buffer k 4)
          else if type = 0xc7 then
            (case byte_at buffer (k + 1) of
               None \<Rightarrow> Inr (JBytes [], NaN)
             | Some len \<Rightarrow> Inr (ext_value buffer k 3 (uint len)))
          else if type = 0xc8 then Inr (ext_value buffer k 4 (sint (be16 buffer (k + 1))))
          else if type = 0xc9 then Inr (ext_value buffer k 6 (sint (be32 buffer (k + 1))))
          else if type = 0xd4 then Inr (ext_value buffer k 2 1)
          else if type = 0xd5 then Inr (ext_value buffer k 2 2)
          else if type = 0xd6 then Inr (ext_value buffer k 2 4)
          else if type = 0xd7 then Inr (ext_value buffer k 2 8)
          else if type = 0xd8 then Inr (ext_value buffer k 2 16)
          else if type = 0xca then
            (case data_view buffer (k + 1) 4 of
               Inl e \<Rightarrow> Inl e
             | Inr bytes \<Rightarrow> Inr (JNum (NFloat32 (be_word bytes)), Idx (k + 5)))
          else if type = 0xcb then
            (case data_view buffer (k + 1) 8 of
               Inl e \<Rightarrow> Inl e
             | Inr bytes \<Rightarrow> Inr (JNum (NFloat64 (be_word bytes)), Idx (k + 9)))
          else if type = 0xcc then
            Inr (case byte_at buffer (k + 1) of
                   None \<Rightarrow> JUndefined
                 | Some v \<Rightarrow> JNum (NInt (uint v)), Idx (k + 2))
          else if type = 0xcd then Inr (JNum (NInt (sint (be16 buffer (k + 1)))), Idx (k + 3))
          else if type = 0xce then Inr (JNum (NInt (uint (be32 buffer (k + 1)))), Idx (k + 5))
          else if type = 0xcf then
            (case data_view buffer (k + 1) 8 of
               Inl e \<Rightarrow> Inl e
             | Inr bytes \<Rightarrow>
                 Inr (JNum (NInt (number_of_bigint (uint (be_word bytes :: 64 word)))), Idx (k + 9)))
          else if type = 0xd0 then
            Inr (case byte_at buffer (k + 1) of
                   None \<Rightarrow> JUndefined
                 | Some v \<Rightarrow> JNum (NInt (if 127 < uint v then uint v - 256 else uint v)),
                 Idx (k + 2))
          else if type = 0xd1 then
            (let v = sint (be16 buffer (k + 1))
             in Inr (JNum (NInt (if 32767 < v then v - 65536 else v)), Idx (k + 3)))
          else if type = 0xd2 then Inr (JNum (NInt (sint (be32 buffer (k + 1)))), Idx (k + 5))
          else if type = 0xd3 then
            (case data_view buffer (k + 1) 8 of
               Inl e \<Rightarrow> Inl e
             | Inr bytes \<Rightarrow>
                 Inr (JNum (NInt (number_of_bigint (sint (be_word bytes :: 64 word)))), Idx (k + 9)))
          else if type = 0xd9 then Inr (readStr buffer k 1)
          else if type = 0xda then Inr (readStr buffer k 2)
          else if type = 0xdb then Inr (readStr buffer k 4)
          else if type = 0xdc then
            decode_array pf stack buffer (nat (sint (be16 buffer (k + 1)))) (Idx (k + 3)) []
          else if type = 0xdd then
            decode_array pf stack buffer (nat (sint (be32 buffer (k + 1)))) (Idx (k + 5)) []
          else if type = 0xde then
            decode_map pf stack buffer (nat (sint (be16 buffer (k + 1)))) (Idx (k + 3))
              (JObj [] ObjectPrototype)
          else if type = 0xdf then
            decode_map pf stack buffer (nat (sint (be32 buffer (k + 1)))) (Idx (k + 5))
              (JObj [] ObjectPrototype)
          else Inl (Error (unsupported_message (Some type) (Idx k)))))"
| "decode_array pf stack buffer 0 offset arr = Inr (JArr arr, offset)"
| "decode_array pf stack buffer (Suc n) offset arr =
     (case decodeMsgpack pf stack buffer offset of
        Inl e \<Rightarrow> Inl e
      | Inr (v, offset') \<Rightarrow> decode_array pf stack buffer n offset' (arr @ [v]))"
| "decode_map pf stack buffer 0 offset obj = Inr (obj, offset)"
| "decode_map pf stack buffer (Suc n) offset obj =
     (case decodeMsgpack pf stack buffer offset of
        Inl e \<Rightarrow> Inl e
      | Inr (key, offset') \<Rightarrow>
          (case decodeMsgpack pf stack buffer offset' of
             Inl e \<Rightarrow> Inl e
           | Inr (val, offset'') \<Rightarrow>
               (case obj_set pf obj key val of
                  Inl e \<Rightarrow> Inl e
                | Inr obj' \<Rightarrow> decode_map pf stack buffer n offset'' obj')))"
  by pat_completeness auto
termination
  by (relation "inv_image (less_than <*lex*> less_than)
        (\<lambda>x. case x of
                Inl (pf, stack, buffer, offset) \<Rightarrow> (stack, 0)
              | Inr (Inl (pf, stack, buffer, n, offset, arr)) \<Rightarrow> (stack, Suc n)
              | Inr (Inr (pf, stack, buffer, n, offset, obj)) \<Rightarrow> (stack, Suc n))")
     auto

declare decodeMsgpack.simps(2) [simp del]

section \<open>Normalising decoded values (normalizeMsgpackValue, decrypt-snapshot-streaming-full-worker.ts)\<close>

text \<open>The first error of a list of results, as \<^verbatim>\<open>Array.prototype.map\<close> stops at the first
  call that throws.\<close>

fun all_results :: "('e + 'x) list \<Rightarrow> 'e + 'x list" where
  "all_results [] = Inr []"
| "all_results (r # rs) =
     (case r of
        Inl e \<Rightarrow> Inl e
      | Inr x \<Rightarrow> (case all_results rs of Inl e \<Rightarrow> Inl e | Inr xs \<Rightarrow> Inr (x # xs)))"

text \<open>
  \<^verbatim>\<open>
  function normalizeMsgpackValue(value) {
    if (value instanceof Uint8Array) return new TextDecoder().decode(value);
    if (Array.isArray(value)) return value.map(normalizeMsgpackValue);
    if (value && typeof value === 'object')
      return Object.fromEntries(
        Object.entries(value).map(([k, v]) => [k, normalizeMsgpackValue(v)]));
    return value;
  }
  \<close>
  The second argument is the depth of recursion that the call stack still allows.
\<close>

fun normalizeMsgpackValue :: "('k, 'a) platform \<Rightarrow> nat \<Rightarrow> jsval \<Rightarrow> js_error + jsval" where
  "normalizeMsgpackValue pf 0 v = Inl RangeError"
| "normalizeMsgpackValue pf (Suc stack) v =
     (case v of
        JBytes bytes \<Rightarrow> Inr (JStr (text_decode bytes))
      | JArr xs \<Rightarrow>
          (case all_results (map (normalizeMsgpackValue pf stack) xs) of
             Inl e \<Rightarrow> Inl e
           | Inr ys \<Rightarrow> Inr (JArr ys))
      | JObj props proto \<Rightarrow>
          (case all_results (map (\<lambda>kv. case normalizeMsgpackValue pf stack (snd kv) of
                                         Inl e \<Rightarrow> Inl e
                                       | Inr y \<Rightarrow> Inr (fst kv, y))
                              (obj_entries pf v)) of
             Inl e \<Rightarrow> Inl e
           | Inr entries \<Rightarrow> Inr (obj_from_entries pf entries))
      | _ \<Rightarrow> Inr v)"

section \<open>Calls of the crypto engine\<close>

text \<open>
  A decryption function returns the calls it made to \<^verbatim>\<open>crypto.subtle\<close> and to the
  decompressor, in order and with their arguments, and its value or the error thrown.
  \<open>AesGcmDecrypt iv data\<close> is \<^verbatim>\<open>decrypt({name: 'AES-GCM', iv, tagLength: 128}, key, data)\<close>.
\<close>

datatype crypto_call =
    RsaOaepDecrypt jsval
  | ImportAesKey "byte list"
  | AesGcmDecrypt "byte list" "byte list"
  | Gunzip "byte list"

type_synonym 'x io = "crypto_call list \<times> (js_error + 'x)"

definition io_return :: "'x \<Rightarrow> 'x io" where
  "io_return x = ([], Inr x)"

definition io_throw :: "js_error \<Rightarrow> 'x io" where
  "io_throw e = ([], Inl e)"

definition io_result :: "js_error + 'x \<Rightarrow> 'x io" where
  "io_result r = ([], r)"

definition io_call :: "crypto_call \<Rightarrow> js_error + 'x \<Rightarrow> 'x io" where
  "io_call c r = ([c], r)"

definition io_bind :: "'x io \<Rightarrow> ('x \<Rightarrow> 'y io) \<Rightarrow> 'y io" where
  "io_bind m f =
     (case m of
        (calls, Inl e) \<Rightarrow> (calls, Inl e)
      | (calls, Inr x) \<Rightarrow> (case f x of (calls', r) \<Rightarrow> (calls @ calls', r)))"

section \<open>The OSNP container (decryptOsnpSnapshot, decrypt-snapshot-streaming-full-worker.ts)\<close>

text \<open>
  \<^verbatim>\<open>view.getUint32(afterHeader)\<close> on \<^verbatim>\<open>new DataView(buffer.buffer)\<close>: the index \<^verbatim>\<open>NaN\<close> is 0, a
  negative index or one less than 4 bytes before the end is a \<^verbatim>\<open>RangeError\<close>. In
  \<^verbatim>\<open>buffer.slice\<close>, \<^verbatim>\<open>NaN\<close> is 0 too.
\<close>

definition index_int :: "index \<Rightarrow> int" where
  "index_int i = (case i of Idx k \<Rightarrow> k | NaN \<Rightarrow> 0)"

definition getUint32 :: "byte list \<Rightarrow> index \<Rightarrow> js_error + int" where
  "getUint32 buffer i =
     (let k = index_int i
      in if k < 0 \<or> int (length buffer) < k + 4 then Inl RangeError
         else Inr (uint (be32 buffer k)))"

definition slice_at :: "byte list \<Rightarrow> index \<Rightarrow> int \<Rightarrow> int \<Rightarrow> byte list" where
  "slice_at buffer start from to =
     js_slice buffer (index_int (index_add start from)) (index_int (index_add start to))"

text \<open>What the function has read from the buffer when it starts to decrypt.\<close>

record osnp_envelope =
  header :: jsval
  afterHeader :: index
  cipherLen :: int
  nonce :: "byte list"
  tag :: "byte list"
  ciphertext :: "byte list"

text \<open>
  The first part of \<^verbatim>\<open>decryptOsnpSnapshot\<close>, up to \<^verbatim>\<open>// Decrypt wrapped key\<close>: the length and
  magic checks, the header at offset 9 or else at offset 8, the header check, and the
  four fields after the header.
\<close>

definition read_osnp :: "('k, 'a) platform \<Rightarrow> nat \<Rightarrow> byte list \<Rightarrow> js_error + osnp_envelope" where
  "read_osnp pf stack buffer =
     (if length buffer < 32 then Inl (Error (ascii ''Snapshot buffer is too small''))
      else if text_decode (js_slice buffer 0 4) \<noteq> ascii ''OSNP''
      then Inl (Error (ascii ''Not an OSNP snapshot''))
      else
        (case (case decodeMsgpack pf stack buffer (Idx 9) of
                 Inl e \<Rightarrow> decodeMsgpack pf stack buffer (Idx 8)
               | Inr r \<Rightarrow> Inr r) of
           Inl e \<Rightarrow> Inl e
         | Inr (header', afterHeader') \<Rightarrow>
             if \<not> js_truthy header' \<or> \<not> js_is_object header'
                \<or> \<not> js_truthy (obj_get pf header' (ascii ''wrappedKey''))
             then Inl (Error (ascii ''Invalid OSNP header''))
             else
               (case getUint32 buffer afterHeader' of
                  Inl e \<Rightarrow> Inl e
                | Inr cipherLen' \<Rightarrow>
                    (let nonceStart = index_add afterHeader' 4
                     in Inr \<lparr>header = header', afterHeader = afterHeader',
                             cipherLen = cipherLen',
                             nonce = slice_at buffer nonceStart 0 12,
                             tag = slice_at buffer nonceStart 12 28,
                             ciphertext = slice_at buffer nonceStart 28 (28 + cipherLen')\<rparr>))))"

text \<open>The end of both decryption functions: \<^verbatim>\<open>JSON.parse\<close> of the decoded text, and in
  the OSNP function the binary decoder when that throws.\<close>

definition parse_json_or_msgpack :: "('k, 'a) platform \<Rightarrow> nat \<Rightarrow> byte list \<Rightarrow> js_error + jsval" where
  "parse_json_or_msgpack pf stack finalBytes =
     (case json_parse pf (text_decode finalBytes) of
        Inr v \<Rightarrow> Inr v
      | Inl e \<Rightarrow>
          (case decodeMsgpack pf stack finalBytes (Idx 0) of
             Inl e' \<Rightarrow> Inl e'
           | Inr (v, offset) \<Rightarrow> normalizeMsgpackValue pf stack v))"

definition decryptOsnpSnapshot ::
  "('k, 'a) platform \<Rightarrow> nat \<Rightarrow> byte list \<Rightarrow> 'k \<Rightarrow> jsval io" where
  "decryptOsnpSnapshot pf stack buffer privateKey =
     (case read_osnp pf stack buffer of
        Inl e \<Rightarrow> io_throw e
      | Inr env \<Rightarrow>
          (let wrappedKey = obj_get pf (header env) (ascii ''wrappedKey'');
               cipherWithTag = ciphertext env @ tag env
           in io_bind (io_call (RsaOaepDecrypt wrappedKey)
                         (rsa_oaep_decrypt pf privateKey wrappedKey)) (\<lambda>contentKeyBytes.
              io_bind (io_call (ImportAesKey contentKeyBytes)
                         (import_aes_key pf contentKeyBytes)) (\<lambda>contentKey.
              io_bind (io_call (AesGcmDecrypt (nonce env) cipherWithTag)
                         (aes_gcm_decrypt pf contentKey (nonce env) cipherWithTag)) (\<lambda>plainBytes.
              io_bind (if obj_get pf (header env) (ascii ''compression'') = JStr (ascii ''gzip'')
                       then io_call (Gunzip plainBytes) (gunzip pf plainBytes)
                       else io_return plainBytes) (\<lambda>finalBytes.
              io_result (parse_json_or_msgpack pf stack finalBytes)))))))"

section \<open>The JSON envelope (decryptJsonSnapshot, decrypt-snapshot-streaming-full-worker.ts)\<close>

text \<open>\<^verbatim>\<open>base64ToUint8Array\<close>: \<^verbatim>\<open>atob\<close>, then each character code stored in a byte.\<close>

definition base64ToUint8Array :: "('k, 'a) platform \<Rightarrow> jsval \<Rightarrow> js_error + byte list" where
  "base64ToUint8Array pf base64 =
     (case atob pf base64 of Inl e \<Rightarrow> Inl e | Inr binary \<Rightarrow> Inr (map ucast binary))"

definition decryptJsonSnapshot :: "('k, 'a) platform \<Rightarrow> jsval \<Rightarrow> 'k \<Rightarrow> jsval io" where
  "decryptJsonSnapshot pf payload privateKey =
     (if js_nullish payload then io_throw TypeError
      else
       (let enc = obj_get pf payload (ascii ''enc'')
        in if \<not> js_truthy enc \<or> \<not> js_truthy (obj_get pf enc (ascii ''wrappedKey''))
              \<or> \<not> js_truthy (obj_get pf enc (ascii ''ciphertext''))
              \<or> \<not> js_truthy (obj_get pf enc (ascii ''nonce''))
              \<or> \<not> js_truthy (obj_get pf enc (ascii ''tag''))
           then io_throw (Error (ascii ''Invalid snapshot format: missing encryption fields''))
           else
             io_bind (io_result (base64ToUint8Array pf (obj_get pf enc (ascii ''wrappedKey''))))
               (\<lambda>wrappedKeyBytes.
             io_bind (io_call (RsaOaepDecrypt (JBytes wrappedKeyBytes))
                        (rsa_oaep_decrypt pf privateKey (JBytes wrappedKeyBytes))) (\<lambda>contentKeyBytes.
             io_bind (io_call (ImportAesKey contentKeyBytes)
                        (import_aes_key pf contentKeyBytes)) (\<lambda>contentKey.
             io_bind (io_result (base64ToUint8Array pf (obj_get pf enc (ascii ''ciphertext''))))
               (\<lambda>cipherBytes.
             io_bind (io_result (base64ToUint8Array pf (obj_get pf enc (ascii ''tag''))))
               (\<lambda>tagBytes.
             io_bind (io_result (base64ToUint8Array pf (obj_get pf enc (ascii ''nonce''))))
               (\<lambda>nonceBytes.
             io_bind (io_call (AesGcmDecrypt nonceBytes (cipherBytes @ tagBytes))
                        (aes_gcm_decrypt pf contentKey nonceBytes (cipherBytes @ tagBytes)))
               (\<lambda>plainBytes.
             io_bind (if obj_get pf enc (ascii ''compression'') = JStr (ascii ''gzip'')
                      then io_call (Gunzip plainBytes) (gunzip pf plainBytes)
                      else io_return plainBytes) (\<lambda>finalBytes.
             io_result (json_parse pf (text_decode finalBytes))))))))))))"

section \<open>Both formats (decryptSnapshot, decrypt-snapshot-streaming-full-worker.ts)\<close>

text \<open>
  \<^verbatim>\<open>decryptSnapshot\<close> from the point where it holds the bytes: the private key is imported,
  then the JSON envelope is tried, and whatever that throws, the OSNP container is tried
  on the same bytes.
\<close>

definition decryptSnapshot ::
  "('k, 'a) platform \<Rightarrow> nat \<Rightarrow> byte list \<Rightarrow> jsstring \<Rightarrow> jsval io" where
  "decryptSnapshot pf stack buffer privateKeyPem =
     (case import_private_key pf privateKeyPem of
        Inl e \<Rightarrow> io_throw e
      | Inr privateKey \<Rightarrow>
          (case (case json_parse pf (text_decode buffer) of
                   Inl e \<Rightarrow> io_throw e
                 | Inr parsed \<Rightarrow> decryptJsonSnapshot pf parsed privateKey) of
             (calls, Inr v) \<Rightarrow> (calls, Inr v)
           | (calls, Inl e) \<Rightarrow>
               (case decryptOsnpSnapshot pf stack buffer privateKey of
                  (calls', r) \<Rightarrow> (calls @ calls', r))))"

section \<open>The decryption placeholder of the full-worker pipeline
  (decryptSnapshotData, decrypt-snapshot-streaming-full-worker.ts)\<close>

text \<open>
  The inline worker code reads a flat layout with no envelope and no compression field:
  256 bytes of wrapped key, 12 bytes of nonce, then the ciphertext with its tag. It
  decompresses when the decrypted bytes start with the gzip magic.
\<close>

definition decryptSnapshotData ::
  "('k, 'a) platform \<Rightarrow> byte list \<Rightarrow> jsstring \<Rightarrow> jsval io" where
  "decryptSnapshotData pf encryptedData privateKeyPem =
     (case import_private_key pf privateKeyPem of
        Inl e \<Rightarrow> io_throw e
      | Inr privateKey \<Rightarrow>
          (let encryptedAesKey = js_slice encryptedData 0 256;
               encryptedContent = js_slice encryptedData 256 (int (length encryptedData));
               iv = js_slice encryptedContent 0 12;
               ciphertext' = js_slice encryptedContent 12 (int (length encryptedContent))
           in io_bind (io_call (RsaOaepDecrypt (JBytes encryptedAesKey))
                         (rsa_oaep_decrypt pf privateKey (JBytes encryptedAesKey))) (\<lambda>aesKeyBuffer.
              io_bind (io_call (ImportAesKey aesKeyBuffer) (import_aes_key pf aesKeyBuffer)) (\<lambda>aesKey.
              io_bind (io_call (AesGcmDecrypt iv ciphertext')
                         (aes_gcm_decrypt pf aesKey iv ciphertext')) (\<lambda>decryptedData.
              io_bind (if byte_at decryptedData 0 = Some 0x1f \<and> byte_at decryptedData 1 = Some 0x8b
                       then io_call (Gunzip decryptedData) (gunzip pf decryptedData)
                       else io_return decryptedData) (\<lambda>decompressed.
              io_result (json_parse pf (text_decode decompressed))))))))"

section \<open>Reading a trace\<close>

text \<open>The chunks given to the worker pool, in order, and the statuses of the metadata
  rows written for one snapshot, in order.\<close>

fun submitted_chunks :: "effect list \<Rightarrow> (jsval list \<times> nat) list" where
  "submitted_chunks [] = []"
| "submitted_chunks (ProcessChunk chunk index # es) = (chunk, index) # submitted_chunks es"
| "submitted_chunks (e # es) = submitted_chunks es"

fun metadata_writes :: "effect list \<Rightarrow> SnapshotMetadata list" where
  "metadata_writes [] = []"
| "metadata_writes (SaveMetadata m # es) = m # metadata_writes es"
| "metadata_writes (e # es) = metadata_writes es"

fun progress_events :: "effect list \<Rightarrow> StreamingProgress list" where
  "progress_events [] = []"
| "progress_events (Progress p # es) = p # progress_events es"
| "progress_events (e # es) = progress_events es"

fun pool_created :: "effect list \<Rightarrow> bool" where
  "pool_created [] = False"
| "pool_created (CreateWorkerPool n c # es) = True"
| "pool_created (e # es) = pool_created es"

fun decrypt_calls :: "effect list \<Rightarrow> nat" where
  "decrypt_calls [] = 0"
| "decrypt_calls (DecryptSnapshot # es) = Suc (decrypt_calls es)"
| "decrypt_calls (e # es) = decrypt_calls es"

text \<open>
  The status changes that the code makes to a stored row. A row is first written as
  \<^verbatim>\<open>processing\<close>; from \<^verbatim>\<open>processing\<close> it is written again as \<^verbatim>\<open>processing\<close>,
  \<^verbatim>\<open>completed\<close> or \<^verbatim>\<open>error\<close>; a row in \<^verbatim>\<open>error\<close> is written as \<^verbatim>\<open>processing\<close> by
  the next run, or as \<^verbatim>\<open>error\<close> again; a \<^verbatim>\<open>completed\<close> row is not written.
\<close>

fun status_step :: "status option \<Rightarrow> status \<Rightarrow> bool" where
  "status_step None s = (s = Processing)"
| "status_step (Some Processing) s = True"
| "status_step (Some Errored) s = (s = Processing \<or> s = Errored)"
| "status_step (Some Completed) s = False"

fun status_chain :: "status option \<Rightarrow> status list \<Rightarrow> bool" where
  "status_chain cur [] = True"
| "status_chain cur (s # ss) = (status_step cur s \<and> status_chain (Some s) ss)"

text \<open>The transitions the specification allows: from \<^verbatim>\<open>processing\<close> to \<^verbatim>\<open>completed\<close>
  or \<^verbatim>\<open>error\<close> (or no change), and none out of \<^verbatim>\<open>completed\<close> or \<^verbatim>\<open>error\<close>.\<close>

fun spec_status_step :: "status option \<Rightarrow> status \<Rightarrow> bool" where
  "spec_status_step None s = (s = Processing)"
| "spec_status_step (Some Processing) s = True"
| "spec_status_step (Some Errored) s = (s = Errored)"
| "spec_status_step (Some Completed) s = (s = Completed)"

fun spec_status_chain :: "status option \<Rightarrow> status list \<Rightarrow> bool" where
  "spec_status_chain cur [] = True"
| "spec_status_chain cur (s # ss) = (spec_status_step cur s \<and> spec_status_chain (Some s) ss)"

text \<open>
  What a run from world \<open>w\<close> to world \<open>w'\<close> wrote: the trace only grows, every metadata
  row written is the row of the snapshot \<open>sid\<close>, and the statuses written, starting from
  the status stored before the run (\<open>None\<close> when there is no row), follow the given
  step relation.
\<close>

definition new_effects :: "world \<Rightarrow> world \<Rightarrow> effect list" where
  "new_effects w w' = drop (length (trace w)) (trace w')"

definition stored_status :: "jsstring \<Rightarrow> world \<Rightarrow> status option" where
  "stored_status sid w = map_option status (getMetadata sid w)"

definition written_statuses :: "world \<Rightarrow> world \<Rightarrow> status list" where
  "written_statuses w w' = map status (metadata_writes (new_effects w w'))"

definition run_writes_ok :: "jsstring \<Rightarrow> world \<Rightarrow> world \<Rightarrow> bool" where
  "run_writes_ok sid w w' =
     (take (length (trace w)) (trace w') = trace w
      \<and> list_all (\<lambda>m. snapshotId m = sid) (metadata_writes (new_effects w w'))
      \<and> status_chain (stored_status sid w) (written_statuses w w'))"



fun posted :: "'r worker_effect list \<Rightarrow> worker_message list" where
  "posted [] = []"
| "posted (Post m # es) = m # posted es"
| "posted (e # es) = posted es"







section \<open>Reading the OSNP layout\<close>

text \<open>The number that a sequence of bytes is in big-endian order.\<close>

definition big_endian :: "byte list \<Rightarrow> int" where
  "big_endian bytes = foldl (\<lambda>acc b. acc * 256 + uint b) 0 bytes"
section \<open>A small runtime for concrete runs\<close>

text \<open>
  Ordinary objects with string keys, a parser that knows the text \<^verbatim>\<open>null\<close> only, a
  base64 decoder that does nothing, and a cipher that does nothing: the wrapped key
  unwraps to itself, decryption drops the 16-byte tag, and decompression drops the
  two magic bytes. The model is run on it at concrete inputs.
\<close>

definition plain_get :: "jsval \<Rightarrow> jsstring \<Rightarrow> jsval" where
  "plain_get v name = (case v of
       JObj props p \<Rightarrow> (case map_of props name of Some x \<Rightarrow> x | None \<Rightarrow> JUndefined)
     | _ \<Rightarrow> JUndefined)"

definition plain_set :: "jsval \<Rightarrow> jsval \<Rightarrow> jsval \<Rightarrow> js_error + jsval" where
  "plain_set obj key val = (case obj of
       JObj props p \<Rightarrow>
         (case key of
            JStr s \<Rightarrow> Inr (JObj (if s \<in> fst ` set props
                                  then map (\<lambda>(k, v). if k = s then (k, val) else (k, v)) props
                                  else props @ [(s, val)]) p)
          | _ \<Rightarrow> Inl TypeError)
     | _ \<Rightarrow> Inl TypeError)"

definition plain_entries :: "jsval \<Rightarrow> (jsstring \<times> jsval) list" where
  "plain_entries v = (case v of JObj props p \<Rightarrow> props | _ \<Rightarrow> [])"

definition test_platform :: "(unit, byte list) platform" where
  "test_platform =
     \<lparr>obj_set = plain_set,
      obj_get = plain_get,
      obj_entries = plain_entries,
      obj_from_entries = (\<lambda>props. JObj props ObjectPrototype),
      json_parse = (\<lambda>s. if s = ascii ''null'' then Inr JNull else Inl SyntaxError),
      atob = (\<lambda>v. case v of JStr s \<Rightarrow> Inr s | _ \<Rightarrow> Inl InvalidCharacterError),
      import_private_key = (\<lambda>pem. Inr ()),
      rsa_oaep_decrypt = (\<lambda>k v. case v of JBytes bs \<Rightarrow> Inr bs | _ \<Rightarrow> Inl TypeError),
      import_aes_key = (\<lambda>bs. Inr bs),
      aes_gcm_decrypt = (\<lambda>k iv ct. if length ct < 16 then Inl OperationError
                                    else Inr (take (length ct - 16) ct)),
      gunzip = (\<lambda>bs. Inr (drop 2 bs))\<rparr>"

definition test_env :: env where
  "test_env = \<lparr>now = ascii ''2024-01-01T00:00:00.000Z'',
               worker_progress = [(0, 2, 2)],
               decrypt_statuses = [ascii ''Downloading snapshot file...'',
                                   ascii ''Importing private key...'',
                                   ascii ''Decrypting snapshot...''],
               decrypt_outcome = Inl OperationError\<rparr>"

definition test_row :: "status \<Rightarrow> int \<Rightarrow> SnapshotMetadata" where
  "test_row st k =
     \<lparr>snapshotId = ascii ''s1'', projectId = JUndefined, queueId = JUndefined,
      messageCount = JNum (NInt 3), totalMessages = Some 3, processedMessages = k,
      firstMessageDate = JUndefined, lastMessageDate = JUndefined,
      createdAt = ascii ''2023-12-31T00:00:00.000Z'', status = st, error = None\<rparr>"

definition test_world :: "status \<Rightarrow> int \<Rightarrow> world" where
  "test_world st k = \<lparr>metadata_store = [test_row st k], trace = []\<rparr>"

definition test_message :: "string \<Rightarrow> jsval" where
  "test_message i =
     JObj [(ascii ''id'', JStr (ascii i)), (ascii ''created_at'', JStr (ascii ''2023-12-01''))]
       ObjectPrototype"

definition test_data :: "jsval list \<Rightarrow> jsval" where
  "test_data msgs =
     JObj [(ascii ''projectId'', JNum (NInt 7)), (ascii ''messages'', JArr msgs)] ObjectPrototype"

text \<open>Snapshot lists for concrete runs.\<close>

definition test_snapshots :: "snapshot list" where
  "test_snapshots = [(ascii ''a'', Finite 10), (ascii ''b'', Finite 10), (ascii ''c'', Finite 30)]"

definition duplicate_snapshots :: "snapshot list" where
  "duplicate_snapshots =
     [(ascii ''a'', Finite 10), (ascii ''a'', Finite 10), (ascii ''c'', Finite 30)]"

text \<open>Sizes 20 and 5.000000000000001, which is \<open>5 + 2\<^sup>-\<^sup>5\<^sup>0\<close>.\<close>

definition rounding_snapshots :: "snapshot list" where
  "rounding_snapshots = [(ascii ''a'', Finite 20), (ascii ''b'', Finite (5 + 1 / 2 ^ 50))]"


text \<open>
  OSNP files for the cipher above: the magic, five bytes that the decoder skips, the
  header (a map with the wrapped key, and in the second one the compression), the
  declared length of the ciphertext, a nonce of 12 bytes, a tag of 16 bytes, and the
  ciphertext.
\<close>

definition ascii_bytes :: "string \<Rightarrow> byte list" where
  "ascii_bytes s = map (\<lambda>c. word_of_nat (of_char c)) s"

definition plain_header :: "byte list" where
  "plain_header = [0x81, 0xaa] @ ascii_bytes ''wrappedKey'' @ [0xc4, 0x01, 0xAA]"

definition gzip_header :: "byte list" where
  "gzip_header = [0x82, 0xaa] @ ascii_bytes ''wrappedKey'' @ [0xc4, 0x01, 0xAA]
                 @ [0xab] @ ascii_bytes ''compression'' @ [0xa4] @ ascii_bytes ''gzip''"

definition osnp_file :: "byte list \<Rightarrow> byte list \<Rightarrow> byte list \<Rightarrow> byte list" where
  "osnp_file hdr len ct =
     OSNP_MAGIC @ [1, 0, 0, 0, 0] @ hdr @ len @ replicate 12 0x11 @ replicate 16 0x22 @ ct"

text \<open>A file whose plaintext is the single byte of \<^verbatim>\<open>null\<close> in the binary encoding.\<close>

definition null_file :: "byte list" where
  "null_file = osnp_file plain_header [0, 0, 0, 1] [0xc0]"

text \<open>The same file declaring 100 bytes of ciphertext.\<close>

definition short_file :: "byte list" where
  "short_file = osnp_file plain_header [0, 0, 0, 100] [0xc0]"

text \<open>A file with no compression in its header whose plaintext starts with the gzip
  magic, and a file with \<^verbatim>\<open>compression: 'gzip'\<close> in its header.\<close>

definition magic_plaintext_file :: "byte list" where
  "magic_plaintext_file = osnp_file plain_header [0, 0, 0, 2] [0x1f, 0x8b]"

definition gzip_file :: "byte list" where
  "gzip_file = osnp_file gzip_header [0, 0, 0, 3] [0x1f, 0x8b, 0xc0]"

text \<open>A file with the magic and no header that decodes.\<close>

definition headerless_file :: "byte list" where
  "headerless_file = OSNP_MAGIC @ replicate 28 0xc1"

text \<open>A JSON envelope with \<^verbatim>\<open>compression: 'gzip'\<close>, and the same without it.\<close>

definition test_enc :: "(jsstring \<times> jsval) list" where
  "test_enc = [(ascii ''wrappedKey'', JStr (ascii ''k'')),
               (ascii ''ciphertext'', JStr ([0x1f, 0x8b] @ ascii ''null'')),
               (ascii ''nonce'', JStr (ascii ''nnnnnnnnnnnn'')),
               (ascii ''tag'', JStr (ascii ''tttttttttttttttt''))]"

definition gzip_envelope :: jsval where
  "gzip_envelope =
     JObj [(ascii ''enc'', JObj (test_enc @ [(ascii ''compression'', JStr (ascii ''gzip''))])
                             ObjectPrototype)] ObjectPrototype"

definition plain_envelope :: jsval where
  "plain_envelope =
     JObj [(ascii ''enc'', JObj ((ascii ''wrappedKey'', JStr (ascii ''k''))
                                 # (ascii ''ciphertext'', JStr (ascii ''null''))
                                 # drop 2 test_enc) ObjectPrototype)] ObjectPrototype"
chapter \<open>Properties\<close>

section \<open>Chunk partitioning\<close>

lemma js_slice_nonneg:
  "0 \<le> s \<Longrightarrow> 0 \<le> e \<Longrightarrow> js_slice xs s e = take (nat e - nat s) (drop (nat s) xs)"
  by (auto simp: js_slice_def js_rel_index_def Let_def min_def)

text \<open>With a positive chunk size the loop started at \<open>i \<ge> 0\<close> returns, having pushed one
  slice per step.\<close>

lemma chunk_loop_total:
  assumes "0 < chunkSize" "0 \<le> i"
  shows "chunk_loop messages chunkSize i chunks =
     Some (chunks @ map (\<lambda>j. js_slice messages (i + int j * chunkSize) (i + int j * chunkSize + chunkSize))
        [0 ..< nat ((int (length messages) - i + chunkSize - 1) div chunkSize)])"
  using assms
proof (induction "nat (int (length messages) - i)" arbitrary: i chunks rule: less_induct)
  case less
  show ?case
  proof (cases "i < int (length messages)")
    case False
    then have "(int (length messages) - i + chunkSize - 1) div chunkSize \<le> 0"
      using less.prems
      by (smt (verit) div_neg_pos_less0 div_pos_pos_trivial)
    then show ?thesis using False
      by (subst chunk_loop.simps) simp
  next
    case True
    let ?n = "nat ((int (length messages) - i + chunkSize - 1) div chunkSize)"
    let ?m = "nat ((int (length messages) - (i + chunkSize) + chunkSize - 1) div chunkSize)"
    have m: "?n = Suc ?m"
    proof -
      have "(int (length messages) - i + chunkSize - 1) div chunkSize
          = (int (length messages) - (i + chunkSize) + chunkSize - 1) div chunkSize + 1"
        using less.prems(1)
        by (smt (verit) div_add_self2)
      moreover have "0 \<le> (int (length messages) - (i + chunkSize) + chunkSize - 1) div chunkSize"
        using True less.prems(1) by (simp add: pos_imp_zdiv_nonneg_iff)
      ultimately show ?thesis by simp
    qed
    have IH: "chunk_loop messages chunkSize (i + chunkSize) (chunks @ [js_slice messages i (i + chunkSize)])
       = Some ((chunks @ [js_slice messages i (i + chunkSize)]) @
           map (\<lambda>j. js_slice messages (i + chunkSize + int j * chunkSize) (i + chunkSize + int j * chunkSize + chunkSize)) [0 ..< ?m])"
      using less.hyps[of "i + chunkSize"] less.prems True by simp
    have "map (\<lambda>j. js_slice messages (i + int j * chunkSize) (i + int j * chunkSize + chunkSize)) [0 ..< Suc ?m]
        = js_slice messages i (i + chunkSize) #
          map (\<lambda>j. js_slice messages (i + chunkSize + int j * chunkSize) (i + chunkSize + int j * chunkSize + chunkSize)) [0 ..< ?m]"
      by (simp add: upt_conv_Cons map_Suc_upt[symmetric] algebra_simps del: upt_Suc)
    then show ?thesis
      using True IH m by (subst chunk_loop.simps) simp
  qed
qed

lemma concat_take_drop:
  "concat (map (\<lambda>j. take c (drop (j * c) xs)) [0 ..< n]) = take (n * c) xs"
proof (induction n)
  case 0
  then show ?case by simp
next
  case (Suc n)
  have "take (n * c) xs @ take c (drop (n * c) xs) = take (n * c + c) xs"
    by (simp add: take_add)
  with Suc show ?case by (simp add: add.commute)
qed

lemma js_slice_chunk:
  "0 < c \<Longrightarrow> js_slice xs (int j * c) (int j * c + c) = take (nat c) (drop (j * nat c) xs)"
  by (simp add: js_slice_nonneg nat_add_distrib nat_mult_distrib)

lemma take_drop_nths:
  "take c (drop k xs) = map (\<lambda>i. xs ! i) [k ..< min (k + c) (length xs)]"
  by (auto simp: list_eq_iff_nth_eq min_def)

lemma chunk_count_bound:
  assumes "0 < (c::int)"
  shows "int N \<le> int (nat ((int N + c - 1) div c)) * c"
proof -
  have "0 \<le> (int N + c - 1) div c" using assms by (simp add: pos_imp_zdiv_nonneg_iff)
  moreover have "int N + c - 1 < ((int N + c - 1) div c) * c + c"
    using assms by (smt (verit) mult.commute pos_mod_bound mult_div_mod_eq)
  ultimately show ?thesis by simp
qed

lemma chunkMessages_eq:
  assumes "0 < chunkSize"
  shows "chunkMessages messages chunkSize =
     Some (map (\<lambda>j. take (nat chunkSize) (drop (j * nat chunkSize) messages))
        [0 ..< nat ((int (length messages) + chunkSize - 1) div chunkSize)])"
  using assms chunk_loop_total[of chunkSize 0 messages "[]"]
  by (simp add: chunkMessages_def js_slice_chunk)

lemma chunk_list_concat:
  assumes "0 < chunkSize"
  shows "concat (map (\<lambda>j. take (nat chunkSize) (drop (j * nat chunkSize) messages))
        [0 ..< nat ((int (length messages) + chunkSize - 1) div chunkSize)]) = messages"
proof -
  let ?n = "nat ((int (length messages) + chunkSize - 1) div chunkSize)"
  have "int (length messages) \<le> int ?n * chunkSize"
    using chunk_count_bound[OF assms] .
  then have "length messages \<le> ?n * nat chunkSize"
    using assms by (metis nat_int nat_mono nat_mult_distrib of_nat_0_le_iff)
  then show ?thesis
    by (simp add: concat_take_drop)
qed

text \<open>
  Claim C6. For every message array and every positive chunk size, \<open>chunkMessages\<close>
  returns a list of chunks whose concatenation is the input array and whose lengths
  sum to its length; chunk \<open>j\<close> holds exactly the elements at the indices from
  \<open>j * chunkSize\<close> up to (excluding) \<open>min ((j + 1) * chunkSize) N\<close>, so the index
  ranges are disjoint, contiguous and in order.
\<close>

theorem chunkMessages_partition:
  assumes "0 < chunkSize"
  shows "\<exists>chunks. chunkMessages messages chunkSize = Some chunks
     \<and> concat chunks = messages
     \<and> sum_list (map length chunks) = length messages
     \<and> int (length chunks) = (int (length messages) + chunkSize - 1) div chunkSize
     \<and> (\<forall>j < length chunks.
           chunks ! j = map (\<lambda>i. messages ! i)
              [j * nat chunkSize ..< min (j * nat chunkSize + nat chunkSize) (length messages)])"
proof -
  let ?n = "nat ((int (length messages) + chunkSize - 1) div chunkSize)"
  let ?chunks = "map (\<lambda>j. take (nat chunkSize) (drop (j * nat chunkSize) messages)) [0 ..< ?n]"
  have run: "chunkMessages messages chunkSize = Some ?chunks"
    using chunkMessages_eq[OF assms] .
  have cat: "concat ?chunks = messages"
    using chunk_list_concat[OF assms] .
  have "sum_list (map length ?chunks) = length (concat ?chunks)"
    by (simp add: length_concat)
  then have len: "sum_list (map length ?chunks) = length messages"
    using cat by simp
  have cnt: "int (length ?chunks) = (int (length messages) + chunkSize - 1) div chunkSize"
    using assms by (simp add: pos_imp_zdiv_nonneg_iff)
  have rng: "\<forall>j < length ?chunks.
           ?chunks ! j = map (\<lambda>i. messages ! i)
              [j * nat chunkSize ..< min (j * nat chunkSize + nat chunkSize) (length messages)]"
    by (simp add: take_drop_nths)
  show ?thesis using run cat len cnt rng by blast
qed

theorem chunkMessages_partition_witness:
  "(0::int) < 3 \<and> (\<exists>chunks. chunkMessages [10, 20, 30, 40, 50, 60, 70 :: nat] 3 = Some chunks
     \<and> concat chunks = [10, 20, 30, 40, 50, 60, 70]
     \<and> sum_list (map length chunks) = 7 \<and> length chunks = 3
     \<and> chunks ! 2 = [70])"
proof -
  have h: "(0::int) < 3" by simp
  obtain chunks where c: "chunkMessages [10, 20, 30, 40, 50, 60, 70 :: nat] 3 = Some chunks"
     "concat chunks = [10, 20, 30, 40, 50, 60, 70]"
     "sum_list (map length chunks) = length [10, 20, 30, 40, 50, 60, 70 :: nat]"
     "int (length chunks) = (int (length [10, 20, 30, 40, 50, 60, 70 :: nat]) + 3 - 1) div 3"
    using chunkMessages_partition[OF h, of "[10, 20, 30, 40, 50, 60, 70 :: nat]"] by blast
  have "chunkMessages [10, 20, 30, 40, 50, 60, 70 :: nat] 3 = Some [[10, 20, 30], [40, 50, 60], [70]]"
    by code_simp
  with c have "chunks = [[10, 20, 30], [40, 50, 60], [70]]" by simp
  with c h show ?thesis by simp
qed

section \<open>The persistence path\<close>

lemma find_filter_other:
  "a \<noteq> sid \<Longrightarrow>
     find (\<lambda>x. snapshotId x = sid) (filter (\<lambda>x. snapshotId x \<noteq> a) xs)
   = find (\<lambda>x. snapshotId x = sid) xs"
  by (induction xs) auto

lemma getMetadata_saveMetadata:
  "getMetadata sid (saveMetadata m w) = (if snapshotId m = sid then Some m else getMetadata sid w)"
  by (simp add: getMetadata_def saveMetadata_def find_filter_other)

lemma getMetadata_id: "getMetadata sid w = Some m \<Longrightarrow> snapshotId m = sid"
  by (auto simp: getMetadata_def find_Some_iff)

lemma getMetadata_emit [simp]: "getMetadata sid (emit e w) = getMetadata sid w"
  by (simp add: getMetadata_def emit_def)

lemma getMetadata_onProgress [simp]: "getMetadata sid (onProgress p w) = getMetadata sid w"
  by (simp add: onProgress_def)

lemma trace_emit [simp]: "trace (emit e w) = trace w @ [e]"
  by (simp add: emit_def)

lemma trace_onProgress [simp]: "trace (onProgress p w) = trace w @ [Progress p]"
  by (simp add: onProgress_def)

lemma trace_saveMetadata [simp]: "trace (saveMetadata m w) = trace w @ [SaveMetadata m]"
  by (simp add: saveMetadata_def)

lemma store_emit [simp]: "metadata_store (emit e w) = metadata_store w"
  by (simp add: emit_def)

lemma store_onProgress [simp]: "metadata_store (onProgress p w) = metadata_store w"
  by (simp add: onProgress_def)

lemma ensure_completed:
  "getMetadata sid w = Some m \<Longrightarrow> status m = Completed \<Longrightarrow>
   ensureProcessingMetadata sid ev w = (\<lparr>metadata = m, skip = True\<rparr>, w)"
  by (simp add: ensureProcessingMetadata_def)

lemma submitted_chunks_append [simp]:
  "submitted_chunks (xs @ ys) = submitted_chunks xs @ submitted_chunks ys"
  by (induction xs rule: submitted_chunks.induct) auto

lemma metadata_writes_append [simp]:
  "metadata_writes (xs @ ys) = metadata_writes xs @ metadata_writes ys"
  by (induction xs rule: metadata_writes.induct) auto

lemma progress_events_append [simp]:
  "progress_events (xs @ ys) = progress_events xs @ progress_events ys"
  by (induction xs rule: progress_events.induct) auto

lemma pool_created_append [simp]:
  "pool_created (xs @ ys) = (pool_created xs \<or> pool_created ys)"
  by (induction xs rule: pool_created.induct) auto

lemma decrypt_calls_append [simp]:
  "decrypt_calls (xs @ ys) = decrypt_calls xs + decrypt_calls ys"
  by (induction xs rule: decrypt_calls.induct) auto

lemma fold_processChunk:
  "foldl (\<lambda>wx (chunk, index). emit (ProcessChunk chunk index) wx) w xs
     = w\<lparr>trace := trace w @ map (\<lambda>(chunk, index). ProcessChunk chunk index) xs\<rparr>"
  by (induction xs arbitrary: w) (auto simp: emit_def)

lemma world_eqI:
  fixes a b :: world
  shows "metadata_store a = metadata_store b \<Longrightarrow> trace a = trace b \<Longrightarrow> a = b"
  by simp

lemma submitted_chunks_map [simp]:
  "submitted_chunks (map (\<lambda>(chunk, index). ProcessChunk chunk index) xs) = xs"
  by (induction xs) auto

lemma fold_updateProgress:
  "\<exists>ps. snd (foldl (\<lambda>sw r. updateProgress cfg t i r sw) (st, w) rs)
          = w\<lparr>trace := trace w @ map Progress ps\<rparr>"
proof (induction rs arbitrary: st w)
  case Nil
  show ?case by (rule exI[of _ "[]"]) simp
next
  case (Cons r rs)
  obtain st' p where step: "updateProgress cfg t i r (st, w) = (st', onProgress p w)"
    by (cases r) (auto simp: updateProgress_def Let_def)
  obtain ps where "snd (foldl (\<lambda>sw r. updateProgress cfg t i r sw) (st', onProgress p w) rs)
          = (onProgress p w)\<lparr>trace := trace (onProgress p w) @ map Progress ps\<rparr>"
    using Cons.IH by blast
  then have "snd (foldl (\<lambda>sw r. updateProgress cfg t i r sw) (st, w) (r # rs))
          = w\<lparr>trace := trace w @ map Progress (p # ps)\<rparr>"
    using step by (simp add: onProgress_def emit_def)
  then show ?case by blast
qed

lemma submitted_chunks_progress [simp]: "submitted_chunks (map Progress ps) = []"
  by (induction ps) auto

lemma metadata_writes_progress [simp]: "metadata_writes (map Progress ps) = []"
  by (induction ps) auto

lemma calculateOptimalChunkSize_pos:
  assumes "0 < wc"
  shows "\<exists>c. calculateOptimalChunkSize n wc = Some c \<and> 0 < c"
  using assms
  by (auto simp: calculateOptimalChunkSize_def Let_def CHUNK_SIZE_SMALL_def CHUNK_SIZE_MEDIUM_def
        CHUNK_SIZE_LARGE_def CHUNK_SIZE_XLARGE_def)

lemma js_slice_suffix:
  "0 \<le> k \<Longrightarrow> js_slice xs k (int (length xs)) = drop (nat k) xs"
  by (simp add: js_slice_nonneg)

lemma test_get_messages:
  "obj_get test_platform (test_data msgs) (ascii ''messages'') = JArr msgs"
  by (simp add: test_platform_def test_data_def plain_get_def ascii_def)

lemma test_get_row: "getMetadata (ascii ''s1'') (test_world st k) = Some (test_row st k)"
  by (simp add: getMetadata_def test_world_def test_row_def)

lemma completed_skip_stream:
  assumes "getMetadata sid w = Some m" and "status m = Completed"
  shows "decryptAndStreamToIndexedDBMultiWorker pf cfg ev sid w =
           Some (None, onProgress
             ((progress_event StageCompleted (Percent 100) MsgAlreadyLoaded)
                \<lparr>p_processedMessages := Some (processedMessages m),
                 p_totalMessages := totalMessages m\<rparr>) w)"
  using assms
  by (simp add: decryptAndStreamToIndexedDBMultiWorker_def stream_try_def ensure_completed)

text \<open>
  Claim C2. When the stored metadata of the snapshot is completed, the pipeline returns
  without error and its only effect is one progress event, of stage \<^verbatim>\<open>completed\<close>, whose
  \<open>processedMessages\<close> and \<open>totalMessages\<close> are those of the stored metadata: it does
  not call \<^verbatim>\<open>decryptSnapshot\<close>, writes no metadata, and gives no chunk to a worker.
\<close>

theorem completed_snapshot_skipped:
  assumes "getMetadata sid w = Some m" and "status m = Completed"
  shows "\<exists>w'. decryptAndStreamToIndexedDBMultiWorker pf cfg ev sid w = Some (None, w')
       \<and> metadata_store w' = metadata_store w
       \<and> trace w' = trace w @
            [Progress \<lparr>p_stage = StageCompleted, p_progress = Percent 100,
                       p_message = MsgAlreadyLoaded,
                       p_processedMessages = Some (processedMessages m),
                       p_totalMessages = totalMessages m,
                       p_error = None, p_insertedMessages = None\<rparr>]
       \<and> decrypt_calls (trace w') = decrypt_calls (trace w)
       \<and> metadata_writes (trace w') = metadata_writes (trace w)
       \<and> submitted_chunks (trace w') = submitted_chunks (trace w)"
  using completed_skip_stream[OF assms, of pf cfg ev]
  by (simp add: progress_event_def)

theorem completed_snapshot_skipped_witness:
  "getMetadata (ascii ''s1'') (test_world Completed 3) = Some (test_row Completed 3)
   \<and> status (test_row Completed 3) = Completed
   \<and> (\<exists>w'. decryptAndStreamToIndexedDBMultiWorker test_platform \<lparr>WORKER_COUNT = 4\<rparr> test_env
              (ascii ''s1'') (test_world Completed 3) = Some (None, w')
         \<and> metadata_store w' = [test_row Completed 3]
         \<and> trace w' =
            [Progress \<lparr>p_stage = StageCompleted, p_progress = Percent 100,
                       p_message = MsgAlreadyLoaded,
                       p_processedMessages = Some 3, p_totalMessages = Some 3,
                       p_error = None, p_insertedMessages = None\<rparr>])"
proof -
  have h1: "getMetadata (ascii ''s1'') (test_world Completed 3) = Some (test_row Completed 3)"
    by (rule test_get_row)
  have h2: "status (test_row Completed 3) = Completed" by (simp add: test_row_def)
  have v: "metadata_store (test_world Completed 3) = [test_row Completed 3]"
      "trace (test_world Completed 3) = []"
      "processedMessages (test_row Completed 3) = 3" "totalMessages (test_row Completed 3) = Some 3"
    by (simp_all add: test_world_def test_row_def)
  show ?thesis
    using completed_snapshot_skipped[OF h1 h2, of test_platform "\<lparr>WORKER_COUNT = 4\<rparr>" test_env]
          h1 h2 v
    by simp blast
qed

text \<open>The same holds when the bulk path calls \<^verbatim>\<open>cacheDecryptedSnapshotMultiWorker\<close>
  without \<^verbatim>\<open>options.metadata\<close>.\<close>

lemma completed_snapshot_skipped_cache:
  assumes "getMetadata sid w = Some m" and "status m = Completed"
  shows "cacheDecryptedSnapshotMultiWorker pf cfg ev sid decryptedData None w =
           Some (None, onProgress
             ((progress_event StageCompleted (Percent 100) MsgAlreadyLoaded)
                \<lparr>p_processedMessages := Some (processedMessages m),
                 p_totalMessages := totalMessages m\<rparr>) w)"
  using assms
  by (simp add: ensure_completed cacheDecryptedSnapshotMultiWorker_def cache_try_def
        cache_with_metadata_def)

lemma cache_messages_insert:
  assumes ins: "ins \<noteq> []" and workers: "0 < WORKER_COUNT cfg"
  shows "\<exists>chunks ps sav fin.
      concat chunks = ins
    \<and> p_stage sav = Saving \<and> p_processedMessages sav = Some resumeFrom
    \<and> p_stage fin = StageCompleted \<and> p_insertedMessages fin = Some (int (length ins))
    \<and> p_processedMessages fin = Some N \<and> p_totalMessages fin = Some N
    \<and> cache_messages cfg ev md2 resumeFrom N ins w =
        Some (None, True,
          \<lparr>metadata_store = md2\<lparr>status := Completed, processedMessages := N\<rparr>
               # filter (\<lambda>x. snapshotId x \<noteq> snapshotId md2) (metadata_store w),
           trace = trace w @ [Progress sav, CreateWorkerPool (WORKER_COUNT cfg) (length chunks)]
               @ map (\<lambda>(chunk, index). ProcessChunk chunk index) (zip chunks [0 ..< length chunks])
               @ map Progress ps
               @ [SaveMetadata (md2\<lparr>status := Completed, processedMessages := N\<rparr>), Progress fin]\<rparr>)"
proof -
  obtain c where c: "calculateOptimalChunkSize (int (length ins)) (WORKER_COUNT cfg) = Some c" "0 < c"
    using calculateOptimalChunkSize_pos[OF workers] by blast
  define chunks where "chunks = map (\<lambda>j. take (nat c) (drop (j * nat c) ins))
        [0 ..< nat ((int (length ins) + c - 1) div c)]"
  have ch: "chunkMessages ins c = Some chunks"
    unfolding chunks_def using chunkMessages_eq[OF c(2)] .
  have cat: "concat chunks = ins"
    unfolding chunks_def using chunk_list_concat[OF c(2), of ins] by simp
  define sav where "sav = (progress_event Saving
                                    (if resumeFrom > 0 \<and> N > 0
                                     then ResumePercent resumeFrom N else Percent 65)
                                    (if resumeFrom > 0 then MsgResuming resumeFrom
                                     else MsgInitializing (WORKER_COUNT cfg)))
                                  \<lparr>p_processedMessages := Some resumeFrom,
                                   p_totalMessages := Some N\<rparr>"
  define fin where "fin = (progress_event StageCompleted (Percent 100)
                                         (if resumeFrom > 0
                                          then MsgResumeComplete (int (length ins)) N (WORKER_COUNT cfg)
                                          else MsgMultiWorkerComplete N (WORKER_COUNT cfg)))
                                       \<lparr>p_processedMessages := Some N, p_totalMessages := Some N,
                                        p_insertedMessages := Some (int (length ins))\<rparr>"
  define w5 where "w5 = foldl (\<lambda>wx (chunk, index). emit (ProcessChunk chunk index) wx)
              (emit (CreateWorkerPool (WORKER_COUNT cfg) (length chunks)) (onProgress sav w))
              (zip chunks [0 ..< length chunks])"
  obtain ps where ps: "snd (foldl (\<lambda>sw r. updateProgress cfg N (int (length ins)) r sw)
                         (\<lparr>chunkProgress = Map.empty, totalProcessed = resumeFrom\<rparr>, w5)
                         (worker_progress ev)) = w5\<lparr>trace := trace w5 @ map Progress ps\<rparr>"
    using fold_updateProgress by blast
  have run: "cache_messages cfg ev md2 resumeFrom N ins w =
        Some (None, True,
          onProgress fin (saveMetadata (md2\<lparr>status := Completed, processedMessages := N\<rparr>)
            (w5\<lparr>trace := trace w5 @ map Progress ps\<rparr>)))"
    unfolding cache_messages_def
    using ins workers c(1) ch ps
    by (simp add: Let_def sav_def[symmetric] fin_def[symmetric] w5_def[symmetric])
  have w5: "w5 = w\<lparr>trace := trace w @ [Progress sav, CreateWorkerPool (WORKER_COUNT cfg) (length chunks)]
               @ map (\<lambda>(chunk, index). ProcessChunk chunk index) (zip chunks [0 ..< length chunks])\<rparr>"
    unfolding w5_def by (rule world_eqI) (simp_all add: fold_processChunk)
  have fin_w: "onProgress fin (saveMetadata (md2\<lparr>status := Completed, processedMessages := N\<rparr>)
            (w5\<lparr>trace := trace w5 @ map Progress ps\<rparr>)) =
          \<lparr>metadata_store = md2\<lparr>status := Completed, processedMessages := N\<rparr>
               # filter (\<lambda>x. snapshotId x \<noteq> snapshotId md2) (metadata_store w),
           trace = trace w @ [Progress sav, CreateWorkerPool (WORKER_COUNT cfg) (length chunks)]
               @ map (\<lambda>(chunk, index). ProcessChunk chunk index) (zip chunks [0 ..< length chunks])
               @ map Progress ps
               @ [SaveMetadata (md2\<lparr>status := Completed, processedMessages := N\<rparr>), Progress fin]\<rparr>"
    by (rule world_eqI) (simp_all add: w5 saveMetadata_def)
  have props: "p_stage sav = Saving" "p_processedMessages sav = Some resumeFrom"
     "p_stage fin = StageCompleted" "p_insertedMessages fin = Some (int (length ins))"
     "p_processedMessages fin = Some N" "p_totalMessages fin = Some N"
    by (simp_all add: sav_def fin_def progress_event_def)
  show ?thesis
    using cat props run[unfolded fin_w] by blast
qed


lemma ensure_not_completed:
  "getMetadata sid w = Some m \<Longrightarrow> status m \<noteq> Completed \<Longrightarrow>
   ensureProcessingMetadata sid ev w =
     (\<lparr>metadata = m\<lparr>status := Processing, error := None\<rparr>, skip = False\<rparr>,
      saveMetadata (m\<lparr>status := Processing, error := None\<rparr>) w)"
  by (simp add: ensureProcessingMetadata_def Let_def)

lemma cache_with_metadata_resume:
  assumes data: "\<not> js_nullish d" "obj_get pf d (ascii ''messages'') = JArr messages"
    and k: "0 \<le> processedMessages md" "processedMessages md < int (length messages)"
    and dates: "\<not> js_nullish (hd messages)" "\<not> js_nullish (last messages)"
  shows "\<exists>md2. snapshotId md2 = snapshotId md
     \<and> cache_with_metadata pf cfg ev d \<lparr>metadata = md, skip = False\<rparr> w =
       cache_messages cfg ev md2 (processedMessages md) (int (length messages))
          (drop (nat (processedMessages md)) messages) (saveMetadata md2 w)"
proof -
  let ?N = "int (length messages)"
  let ?k = "processedMessages md"
  have ne: "messages \<noteq> []" using k by auto
  have mn: "min ?k ?N = ?k" using k by simp
  define md2 where "md2 = md\<lparr>projectId := obj_get pf d (ascii ''projectId''),
        queueId := obj_get pf d (ascii ''queueId''),
        messageCount := (if js_truthy (obj_get pf d (ascii ''messageCount''))
                         then obj_get pf d (ascii ''messageCount'') else JNum (NInt ?N)),
        totalMessages := Some ?N,
        firstMessageDate := obj_get pf (hd messages) (ascii ''created_at''),
        lastMessageDate := obj_get pf (last messages) (ascii ''created_at'')\<rparr>"
  have id: "snapshotId md2 = snapshotId md" by (simp add: md2_def)
  have "cache_with_metadata pf cfg ev d \<lparr>metadata = md, skip = False\<rparr> w =
       cache_messages cfg ev md2 ?k ?N (drop (nat ?k) messages) (saveMetadata md2 w)"
  proof (cases "0 < ?k")
    case True
    then have "js_slice messages ?k ?N = drop (nat ?k) messages"
      by (simp add: js_slice_suffix)
    then show ?thesis
      unfolding cache_with_metadata_def
      using data dates ne True
      by (simp add: Let_def created_at_of_def mn md2_def)
  next
    case False
    then have "?k = 0" using k by simp
    then show ?thesis
      unfolding cache_with_metadata_def
      using data dates ne
      by (simp add: Let_def created_at_of_def md2_def)
  qed
  then show ?thesis using id by blast
qed

text \<open>
  Claim C1. Let the stored metadata of the snapshot be not completed with
  \<open>processedMessages = k\<close>, and let the decrypted data hold a message array of length
  \<open>N\<close> with \<open>0 \<le> k < N\<close> (whose first and last elements are not \<^verbatim>\<open>null\<close>, so that
  reading their dates does not throw), on a pool of at least one worker. Then the
  persistence path returns without error; it reports the resume point \<open>min k N\<close> in its
  \<^verbatim>\<open>saving\<close> event; the chunks it gives to the worker pool, numbered from 0 in order,
  concatenate to exactly the suffix of the \<open>N - k\<close> messages at the indices \<open>k\<close> to
  \<open>N - 1\<close>; and the metadata stored at the end is completed with
  \<open>processedMessages = N\<close>.
\<close>

theorem resume_submits_suffix:
  assumes row: "getMetadata sid w = Some m" "status m \<noteq> Completed" "processedMessages m = k"
    and data: "\<not> js_nullish decryptedData"
              "obj_get pf decryptedData (ascii ''messages'') = JArr messages"
    and k: "0 \<le> k" "k < int (length messages)"
    and dates: "\<not> js_nullish (hd messages)" "\<not> js_nullish (last messages)"
    and workers: "0 < WORKER_COUNT cfg"
  shows "\<exists>w' chunks sav md.
      cacheDecryptedSnapshotMultiWorker pf cfg ev sid decryptedData None w = Some (None, w')
    \<and> submitted_chunks (trace w') = submitted_chunks (trace w) @ zip chunks [0 ..< length chunks]
    \<and> concat chunks = drop (nat k) messages
    \<and> int (length (concat chunks)) = int (length messages) - k
    \<and> sav \<in> set (progress_events (trace w')) \<and> p_stage sav = Saving
    \<and> p_processedMessages sav = Some (min k (int (length messages)))
    \<and> getMetadata sid w' = Some md
    \<and> processedMessages md = int (length messages) \<and> status md = Completed"
proof -
  let ?N = "int (length messages)"
  define m1 where "m1 = m\<lparr>status := Processing, error := None\<rparr>"
  define w1 where "w1 = saveMetadata m1 w"
  have m1: "processedMessages m1 = k" "snapshotId m1 = sid"
    using row getMetadata_id[OF row(1)] by (simp_all add: m1_def)
  have e: "ensureProcessingMetadata sid ev w = (\<lparr>metadata = m1, skip = False\<rparr>, w1)"
    using ensure_not_completed[OF row(1,2)] by (simp add: m1_def w1_def)
  obtain md2 where md2: "snapshotId md2 = sid"
     "cache_with_metadata pf cfg ev decryptedData \<lparr>metadata = m1, skip = False\<rparr> w1 =
       cache_messages cfg ev md2 k ?N (drop (nat k) messages) (saveMetadata md2 w1)"
    using cache_with_metadata_resume[of decryptedData pf messages m1 cfg ev w1] data k dates m1
    by auto
  have ne: "drop (nat k) messages \<noteq> []" using k by simp
  define w2 where "w2 = saveMetadata md2 w1"
  define md3 where "md3 = md2\<lparr>status := Completed, processedMessages := ?N\<rparr>"
  obtain chunks ps sav fin where r:
    "concat chunks = drop (nat k) messages"
    "p_stage sav = Saving" "p_processedMessages sav = Some k"
    "cache_messages cfg ev md2 k ?N (drop (nat k) messages) w2 =
        Some (None, True,
          \<lparr>metadata_store = md3 # filter (\<lambda>x. snapshotId x \<noteq> snapshotId md2) (metadata_store w2),
           trace = trace w2 @ [Progress sav, CreateWorkerPool (WORKER_COUNT cfg) (length chunks)]
               @ map (\<lambda>(chunk, index). ProcessChunk chunk index) (zip chunks [0 ..< length chunks])
               @ map Progress ps
               @ [SaveMetadata md3, Progress fin]\<rparr>)"
    using cache_messages_insert[OF ne workers, of k ?N ev md2 w2] unfolding md3_def by blast
  define w3 where "w3 = \<lparr>metadata_store = md3 # filter (\<lambda>x. snapshotId x \<noteq> snapshotId md2) (metadata_store w2),
           trace = trace w2 @ [Progress sav, CreateWorkerPool (WORKER_COUNT cfg) (length chunks)]
               @ map (\<lambda>(chunk, index). ProcessChunk chunk index) (zip chunks [0 ..< length chunks])
               @ map Progress ps
               @ [SaveMetadata md3, Progress fin]\<rparr>"
  define w4 where "w4 = emit TerminateWorkerPool w3"
  have run: "cacheDecryptedSnapshotMultiWorker pf cfg ev sid decryptedData None w = Some (None, w4)"
    using e md2(2) r(4)
    by (simp add: cacheDecryptedSnapshotMultiWorker_def cache_try_def w2_def w3_def w4_def)
  have sub: "submitted_chunks (trace w4) = submitted_chunks (trace w) @ zip chunks [0 ..< length chunks]"
    by (simp add: w4_def w3_def w2_def w1_def)
  have ev: "sav \<in> set (progress_events (trace w4))"
    by (simp add: w4_def w3_def)
  have got: "getMetadata sid w4 = Some md3"
    using md2(1) by (simp add: w4_def w3_def getMetadata_def md3_def)
  have len: "int (length (concat chunks)) = ?N - k"
    using r(1) k by simp
  have mn: "p_processedMessages sav = Some (min k ?N)" using k r(3) by simp
  have fin: "processedMessages md3 = ?N" "status md3 = Completed"
    by (simp_all add: md3_def)
  show ?thesis
    apply (rule exI[of _ w4], rule exI[of _ chunks], rule exI[of _ sav], rule exI[of _ md3])
    using run sub r(1,2) len ev got mn fin by simp
qed

theorem resume_submits_suffix_witness:
  "getMetadata (ascii ''s1'') (test_world Processing 1) = Some (test_row Processing 1)
   \<and> status (test_row Processing 1) \<noteq> Completed
   \<and> processedMessages (test_row Processing 1) = 1
   \<and> \<not> js_nullish (test_data [test_message ''a'', test_message ''b'', test_message ''c''])
   \<and> obj_get test_platform (test_data [test_message ''a'', test_message ''b'', test_message ''c''])
         (ascii ''messages'') = JArr [test_message ''a'', test_message ''b'', test_message ''c'']
   \<and> (1::int) < int (length [test_message ''a'', test_message ''b'', test_message ''c''])
   \<and> (\<exists>w' chunks sav md.
      cacheDecryptedSnapshotMultiWorker test_platform \<lparr>WORKER_COUNT = 4\<rparr> test_env (ascii ''s1'')
         (test_data [test_message ''a'', test_message ''b'', test_message ''c'']) None
         (test_world Processing 1) = Some (None, w')
    \<and> submitted_chunks (trace w') = zip chunks [0 ..< length chunks]
    \<and> concat chunks = [test_message ''b'', test_message ''c'']
    \<and> sav \<in> set (progress_events (trace w')) \<and> p_stage sav = Saving
    \<and> p_processedMessages sav = Some 1
    \<and> getMetadata (ascii ''s1'') w' = Some md
    \<and> processedMessages md = 3 \<and> status md = Completed)"
proof -
  let ?msgs = "[test_message ''a'', test_message ''b'', test_message ''c'']"
  have h1: "getMetadata (ascii ''s1'') (test_world Processing 1) = Some (test_row Processing 1)"
    by (rule test_get_row)
  have h2: "status (test_row Processing 1) \<noteq> Completed" by (simp add: test_row_def)
  have h3: "processedMessages (test_row Processing 1) = 1" by (simp add: test_row_def)
  have h4: "\<not> js_nullish (test_data ?msgs)" by (simp add: js_nullish_def test_data_def)
  have h5: "obj_get test_platform (test_data ?msgs) (ascii ''messages'') = JArr ?msgs"
    by (rule test_get_messages)
  have h6: "(0::int) \<le> 1" by simp
  have h7: "(1::int) < int (length ?msgs)" by simp
  have h8: "\<not> js_nullish (hd ?msgs)" by (simp add: js_nullish_def test_message_def)
  have h9: "\<not> js_nullish (last ?msgs)" by (simp add: js_nullish_def test_message_def)
  have h10: "0 < WORKER_COUNT \<lparr>WORKER_COUNT = 4\<rparr>" by simp
  have tr: "trace (test_world Processing 1) = []" by (simp add: test_world_def)
  show ?thesis
    using resume_submits_suffix[OF h1 h2 h3 h4 h5 h6 h7 h8 h9 h10, of test_env]
          h1 h2 h3 h4 h5 h7 tr
    by simp blast
qed

lemma ensure_fresh:
  "getMetadata sid w = None \<Longrightarrow>
   \<exists>md. status md = Processing \<and> snapshotId md = sid \<and>
   ensureProcessingMetadata sid ev w = (\<lparr>metadata = md, skip = False\<rparr>, saveMetadata md w)"
  by (simp add: ensureProcessingMetadata_def Let_def)

lemma ensure_processing:
  assumes "case getMetadata sid w of Some m \<Rightarrow> status m \<noteq> Completed | None \<Rightarrow> True"
  shows "\<exists>md. status md = Processing \<and> snapshotId md = sid \<and>
   ensureProcessingMetadata sid ev w = (\<lparr>metadata = md, skip = False\<rparr>, saveMetadata md w)"
proof (cases "getMetadata sid w")
  case None
  then show ?thesis using ensure_fresh by blast
next
  case (Some m)
  then have "status m \<noteq> Completed" using assms by simp
  from ensure_not_completed[OF Some this] getMetadata_id[OF Some]
  show ?thesis by (intro exI[of _ "m\<lparr>status := Processing, error := None\<rparr>"]) simp
qed

text \<open>
  Claim C10. When the decrypted data holds an empty message array and the stored
  metadata of the snapshot is not completed, \<^verbatim>\<open>cacheDecryptedSnapshotMultiWorker\<close>
  returns without error, gives no chunk to a worker (so no message record is written),
  creates no worker pool, leaves the metadata of the snapshot completed with
  \<open>processedMessages = 0\<close> and \<open>totalMessages = 0\<close>, and reports exactly one progress
  event, of stage \<^verbatim>\<open>completed\<close> with \<open>insertedMessages = 0\<close>.
\<close>

theorem empty_snapshot_completed:
  assumes data: "\<not> js_nullish decryptedData"
                "obj_get pf decryptedData (ascii ''messages'') = JArr []"
    and row: "case getMetadata sid w of Some m \<Rightarrow> status m \<noteq> Completed | None \<Rightarrow> True"
  shows "\<exists>w' md fin.
      cacheDecryptedSnapshotMultiWorker pf cfg ev sid decryptedData None w = Some (None, w')
    \<and> submitted_chunks (trace w') = submitted_chunks (trace w)
    \<and> pool_created (trace w') = pool_created (trace w)
    \<and> getMetadata sid w' = Some md
    \<and> status md = Completed \<and> processedMessages md = 0 \<and> totalMessages md = Some 0
    \<and> progress_events (trace w') = progress_events (trace w) @ [fin]
    \<and> p_stage fin = StageCompleted \<and> p_insertedMessages fin = Some 0
    \<and> p_processedMessages fin = Some 0 \<and> p_totalMessages fin = Some 0"
proof -
  obtain m1 where m1: "status m1 = Processing" "snapshotId m1 = sid"
     "ensureProcessingMetadata sid ev w = (\<lparr>metadata = m1, skip = False\<rparr>, saveMetadata m1 w)"
    using ensure_processing[OF row] by blast
  define md0 where "md0 = m1\<lparr>projectId := obj_get pf decryptedData (ascii ''projectId''),
        queueId := obj_get pf decryptedData (ascii ''queueId''),
        messageCount := JNum (NInt 0), totalMessages := Some 0,
        status := Completed, processedMessages := 0\<rparr>"
  define fin where "fin = (progress_event StageCompleted (Percent 100) MsgNoMessages)
                         \<lparr>p_processedMessages := Some 0, p_totalMessages := Some 0,
                          p_insertedMessages := Some 0\<rparr>"
  define w' where "w' = onProgress fin (saveMetadata md0 (saveMetadata m1 w))"
  have run: "cacheDecryptedSnapshotMultiWorker pf cfg ev sid decryptedData None w = Some (None, w')"
    using data m1(3)
    by (simp add: cacheDecryptedSnapshotMultiWorker_def cache_try_def cache_with_metadata_def
          Let_def md0_def fin_def w'_def)
  have got: "getMetadata sid w' = Some md0"
    using m1(2) by (simp add: w'_def getMetadata_saveMetadata md0_def)
  show ?thesis
    apply (rule exI[of _ w'], rule exI[of _ md0], rule exI[of _ fin])
    using run got by (simp add: w'_def md0_def fin_def progress_event_def)
qed

theorem empty_snapshot_completed_witness:
  "\<not> js_nullish (test_data [])
   \<and> obj_get test_platform (test_data []) (ascii ''messages'') = JArr []
   \<and> (case getMetadata (ascii ''s1'') (test_world Errored 0) of
         Some m \<Rightarrow> status m \<noteq> Completed | None \<Rightarrow> True)
   \<and> (\<exists>w' md fin.
      cacheDecryptedSnapshotMultiWorker test_platform \<lparr>WORKER_COUNT = 4\<rparr> test_env (ascii ''s1'')
         (test_data []) None (test_world Errored 0) = Some (None, w')
    \<and> submitted_chunks (trace w') = []
    \<and> \<not> pool_created (trace w')
    \<and> getMetadata (ascii ''s1'') w' = Some md
    \<and> status md = Completed \<and> processedMessages md = 0 \<and> totalMessages md = Some 0
    \<and> progress_events (trace w') = [fin]
    \<and> p_stage fin = StageCompleted \<and> p_insertedMessages fin = Some 0)"
proof -
  have h1: "\<not> js_nullish (test_data [])" by (simp add: js_nullish_def test_data_def)
  have h2: "obj_get test_platform (test_data []) (ascii ''messages'') = JArr []"
    by (rule test_get_messages)
  have h3: "case getMetadata (ascii ''s1'') (test_world Errored 0) of
         Some m \<Rightarrow> status m \<noteq> Completed | None \<Rightarrow> True"
    by (simp add: test_get_row test_row_def)
  have tr: "trace (test_world Errored 0) = []" by (simp add: test_world_def)
  show ?thesis
    using empty_snapshot_completed[OF h1 h2 h3, of "\<lparr>WORKER_COUNT = 4\<rparr>" test_env] h1 h2 h3 tr
    by simp blast
qed

section \<open>Status transitions of the metadata\<close>

lemma cache_messages_no_worker:
  "ins \<noteq> [] \<Longrightarrow> \<not> 0 < WORKER_COUNT cfg \<Longrightarrow> cache_messages cfg ev md2 r N ins w = None"
  by (auto simp: cache_messages_def Let_def split: option.splits)

lemma cache_messages_writes:
  assumes "cache_messages cfg ev md2 r N ins w = Some (thrown, pool, w')"
  shows "thrown = None \<and> (\<exists>new. trace w' = trace w @ new
            \<and> metadata_writes new = [md2\<lparr>status := Completed, processedMessages := N\<rparr>])"
proof (cases "ins = []")
  case True
  with assms show ?thesis
    by (auto simp: cache_messages_def Let_def)
next
  case False
  then have wc: "0 < WORKER_COUNT cfg"
    using assms cache_messages_no_worker by fastforce
  obtain chunks ps sav fin where r:
    "cache_messages cfg ev md2 r N ins w =
        Some (None, True,
          \<lparr>metadata_store = md2\<lparr>status := Completed, processedMessages := N\<rparr>
               # filter (\<lambda>x. snapshotId x \<noteq> snapshotId md2) (metadata_store w),
           trace = trace w @ [Progress sav, CreateWorkerPool (WORKER_COUNT cfg) (length chunks)]
               @ map (\<lambda>(chunk, index). ProcessChunk chunk index) (zip chunks [0 ..< length chunks])
               @ map Progress ps
               @ [SaveMetadata (md2\<lparr>status := Completed, processedMessages := N\<rparr>), Progress fin]\<rparr>)"
    using cache_messages_insert[OF False wc, of r N ev md2 w] by blast
  have mw: "metadata_writes (map (\<lambda>(chunk, index). ProcessChunk chunk index) xs) = []" for xs
    by (induction xs) auto
  show ?thesis
    using assms r by (auto simp: mw)
qed

lemma cache_with_metadata_writes:
  assumes "cache_with_metadata pf cfg ev d \<lparr>metadata = md, skip = False\<rparr> w1 = Some (thrown, pool, w2)"
  shows "\<exists>new. trace w2 = trace w1 @ new
     \<and> (\<forall>m \<in> set (metadata_writes new). snapshotId m = snapshotId md)
     \<and> (case thrown of
           Some e \<Rightarrow> w2 = w1 \<and> \<not> pool
         | None \<Rightarrow> map status (metadata_writes new) = [Completed]
                 \<or> map status (metadata_writes new) = [status md, Completed])"
proof (cases "\<exists>messages. \<not> js_nullish d \<and> obj_get pf d (ascii ''messages'') = JArr messages
           \<and> (messages = [] \<or> (\<not> js_nullish (hd messages) \<and> \<not> js_nullish (last messages)))")
  case False
  then have "thrown \<noteq> None \<and> w2 = w1 \<and> \<not> pool"
    using assms
    by (auto simp: cache_with_metadata_def Let_def created_at_of_def
             split: jsval.splits if_splits)
  then show ?thesis by (intro exI[of _ "[]"]) auto
next
  case True
  then obtain messages where m: "\<not> js_nullish d" "obj_get pf d (ascii ''messages'') = JArr messages"
     "messages = [] \<or> (\<not> js_nullish (hd messages) \<and> \<not> js_nullish (last messages))"
    by blast
  show ?thesis
  proof (cases "messages = []")
    case True
    then show ?thesis
      using assms m
      by (auto simp: cache_with_metadata_def Let_def)
  next
    case False
    define md2 where "md2 = md\<lparr>projectId := obj_get pf d (ascii ''projectId''),
        queueId := obj_get pf d (ascii ''queueId''),
        messageCount := (if js_truthy (obj_get pf d (ascii ''messageCount''))
                         then obj_get pf d (ascii ''messageCount'')
                         else JNum (NInt (int (length messages)))),
        totalMessages := Some (int (length messages)),
        firstMessageDate := obj_get pf (hd messages) (ascii ''created_at''),
        lastMessageDate := obj_get pf (last messages) (ascii ''created_at'')\<rparr>"
    obtain r ins where c: "cache_with_metadata pf cfg ev d \<lparr>metadata = md, skip = False\<rparr> w1
        = cache_messages cfg ev md2 r (int (length messages)) ins (saveMetadata md2 w1)"
      using m False
      by (simp add: cache_with_metadata_def Let_def created_at_of_def md2_def)
    from cache_messages_writes[OF assms[unfolded c]]
    obtain new where n: "thrown = None" "trace w2 = trace (saveMetadata md2 w1) @ new"
       "metadata_writes new = [md2\<lparr>status := Completed, processedMessages := int (length messages)\<rparr>]"
      by blast
    show ?thesis
      by (rule exI[of _ "SaveMetadata md2 # new"]) (simp add: n md2_def)
  qed
qed


lemma record_failure_trace:
  "trace (record_failure sid e w) = trace w @
     (case getMetadata sid w of
        Some em \<Rightarrow> [SaveMetadata (em\<lparr>status := Errored, error := Some e\<rparr>)]
      | None \<Rightarrow> [])
     @ [Progress ((progress_event StageError (Percent 0) MsgFailed)\<lparr>p_error := Some e\<rparr>)]"
  by (simp add: record_failure_def Let_def split: option.splits)

lemma record_failure_get:
  "getMetadata sid (record_failure sid e w) =
     map_option (\<lambda>em. em\<lparr>status := Errored, error := Some e\<rparr>) (getMetadata sid w)"
  by (auto simp: record_failure_def Let_def getMetadata_saveMetadata getMetadata_id
           split: option.splits)

lemma fold_decrypt_status:
  "\<exists>ps. foldl (\<lambda>wx s. decrypt_status s wx) w ss = w\<lparr>trace := trace w @ map Progress ps\<rparr>"
proof (induction ss arbitrary: w)
  case Nil
  show ?case by (rule exI[of _ "[]"]) simp
next
  case (Cons s ss)
  have "\<exists>qs. decrypt_status s w = w\<lparr>trace := trace w @ map Progress qs\<rparr>"
  proof (cases "decrypt_status s w = w")
    case True
    then show ?thesis by (intro exI[of _ "[]"]) simp
  next
    case False
    then obtain p where "decrypt_status s w = onProgress p w"
      by (auto simp: decrypt_status_def split: if_splits)
    then show ?thesis by (intro exI[of _ "[p]"]) (simp add: onProgress_def emit_def)
  qed
  then obtain qs where q: "decrypt_status s w = w\<lparr>trace := trace w @ map Progress qs\<rparr>" by blast
  obtain ps where "foldl (\<lambda>wx s. decrypt_status s wx) (decrypt_status s w) ss
      = (decrypt_status s w)\<lparr>trace := trace (decrypt_status s w) @ map Progress ps\<rparr>"
    using Cons.IH by blast
  then have "foldl (\<lambda>wx s. decrypt_status s wx) w (s # ss)
      = w\<lparr>trace := trace w @ map Progress (qs @ ps)\<rparr>"
    using q by simp
  then show ?case by blast
qed

text \<open>What \<^verbatim>\<open>cacheDecryptedSnapshotMultiWorker\<close> writes when it is given the metadata
  that \<^verbatim>\<open>ensureProcessingMetadata\<close> has just stored.\<close>

lemma cache_given_metadata_writes:
  assumes run: "cacheDecryptedSnapshotMultiWorker pf cfg ev sid d (Some md) w1 = Some (thrown, w3)"
    and row: "getMetadata sid w1 = Some md" "status md = Processing"
  shows "\<exists>new. trace w3 = trace w1 @ new
     \<and> (\<forall>m \<in> set (metadata_writes new). snapshotId m = sid)
     \<and> (case thrown of
           Some e \<Rightarrow> map status (metadata_writes new) = [Errored]
                    \<and> map_option status (getMetadata sid w3) = Some Errored
         | None \<Rightarrow> map status (metadata_writes new) = [Completed]
                 \<or> map status (metadata_writes new) = [Processing, Completed])"
proof -
  have id: "snapshotId md = sid" using getMetadata_id[OF row(1)] .
  obtain pool w2 where t: "cache_with_metadata pf cfg ev d \<lparr>metadata = md, skip = False\<rparr> w1
        = Some (thrown, pool, w2)"
    and w3: "w3 = (let wa = (case thrown of None \<Rightarrow> w2 | Some e \<Rightarrow> record_failure sid e w2)
                   in if pool then emit TerminateWorkerPool wa else wa)"
    using run
    by (auto simp: cacheDecryptedSnapshotMultiWorker_def cache_try_def Let_def
             split: option.splits)
  obtain new where n: "trace w2 = trace w1 @ new"
     "\<forall>m \<in> set (metadata_writes new). snapshotId m = snapshotId md"
     "case thrown of
           Some e \<Rightarrow> w2 = w1 \<and> \<not> pool
         | None \<Rightarrow> map status (metadata_writes new) = [Completed]
                 \<or> map status (metadata_writes new) = [status md, Completed]"
    using cache_with_metadata_writes[OF t] by blast
  show ?thesis
  proof (cases thrown)
    case None
    show ?thesis
      apply (rule exI[of _ "new @ (if pool then [TerminateWorkerPool] else [])"])
      using n None w3 id row(2) by auto
  next
    case (Some e)
    then have w: "w2 = w1" "\<not> pool" using n(3) by simp_all
    have w3': "w3 = record_failure sid e w1" using w3 Some w by simp
    show ?thesis
      apply (rule exI[of _ "[SaveMetadata (md\<lparr>status := Errored, error := Some e\<rparr>),
           Progress ((progress_event StageError (Percent 0) MsgFailed)\<lparr>p_error := Some e\<rparr>)]"])
      using Some row id by (simp add: w3' record_failure_trace record_failure_get)
  qed
qed


lemma run_writes_okI:
  assumes "trace w' = trace w @ new"
    and "\<forall>m \<in> set (metadata_writes new). snapshotId m = sid"
    and "status_chain (stored_status sid w) (map status (metadata_writes new))"
  shows "run_writes_ok sid w w'"
  using assms
  by (simp add: run_writes_ok_def new_effects_def written_statuses_def list_all_iff)

lemma status_chain_first_touch:
  assumes "st \<noteq> Some Completed"
    and "ss = [] \<or> ss = [Completed] \<or> ss = [Processing, Completed] \<or> ss = [Errored]
         \<or> ss = [Errored, Errored]"
  shows "status_chain st (Processing # ss)"
proof -
  have "status_step st Processing"
  proof (cases st)
    case None
    then show ?thesis by simp
  next
    case (Some s)
    then show ?thesis using assms(1) by (cases s) auto
  qed
  then show ?thesis using assms(2) by auto
qed

lemma metadata_writes_map_progress_append [simp]:
  "metadata_writes (map Progress ps @ xs) = metadata_writes xs"
  by simp

lemma cache_entry_writes:
  assumes run: "cacheDecryptedSnapshotMultiWorker pf cfg ev sid d None w = Some (r, w')"
  shows "run_writes_ok sid w w'"
proof (cases "stored_status sid w = Some Completed")
  case True
  then obtain m where m: "getMetadata sid w = Some m" "status m = Completed"
    by (auto simp: stored_status_def)
  from run completed_snapshot_skipped_cache[OF m, of pf cfg ev d]
  have "trace w' = trace w @ [Progress ((progress_event StageCompleted (Percent 100) MsgAlreadyLoaded)
                \<lparr>p_processedMessages := Some (processedMessages m),
                 p_totalMessages := totalMessages m\<rparr>)]"
    by auto
  then show ?thesis by (rule run_writes_okI) simp_all
next
  case False
  then have "case getMetadata sid w of Some m \<Rightarrow> status m \<noteq> Completed | None \<Rightarrow> True"
    by (auto simp: stored_status_def split: option.splits)
  then obtain md where md: "status md = Processing" "snapshotId md = sid"
     "ensureProcessingMetadata sid ev w = (\<lparr>metadata = md, skip = False\<rparr>, saveMetadata md w)"
    using ensure_processing by blast
  have run': "cacheDecryptedSnapshotMultiWorker pf cfg ev sid d (Some md) (saveMetadata md w) = Some (r, w')"
    using run md(3) by (simp add: cacheDecryptedSnapshotMultiWorker_def cache_try_def)
  have got: "getMetadata sid (saveMetadata md w) = Some md"
    using md(2) by (simp add: getMetadata_saveMetadata)
  obtain new where n: "trace w' = trace (saveMetadata md w) @ new"
     "\<forall>m \<in> set (metadata_writes new). snapshotId m = sid"
     "case r of
           Some e \<Rightarrow> map status (metadata_writes new) = [Errored]
                    \<and> map_option status (getMetadata sid w') = Some Errored
         | None \<Rightarrow> map status (metadata_writes new) = [Completed]
                 \<or> map status (metadata_writes new) = [Processing, Completed]"
    using cache_given_metadata_writes[OF run' got md(1)] by blast
  have ch: "status_chain (stored_status sid w) (Processing # map status (metadata_writes new))"
    using False n(3) by (intro status_chain_first_touch) (auto split: option.splits)
  show ?thesis
    by (rule run_writes_okI[of _ _ "SaveMetadata md # new"]) (use n md ch in simp_all)
qed

lemma stream_entry_writes:
  assumes run: "decryptAndStreamToIndexedDBMultiWorker pf cfg ev sid w = Some (r, w')"
  shows "run_writes_ok sid w w'"
proof (cases "stored_status sid w = Some Completed")
  case True
  then obtain m where m: "getMetadata sid w = Some m" "status m = Completed"
    by (auto simp: stored_status_def)
  from run completed_skip_stream[OF m, of pf cfg ev]
  have "trace w' = trace w @ [Progress ((progress_event StageCompleted (Percent 100) MsgAlreadyLoaded)
                \<lparr>p_processedMessages := Some (processedMessages m),
                 p_totalMessages := totalMessages m\<rparr>)]"
    by auto
  then show ?thesis by (rule run_writes_okI) simp_all
next
  case False
  then have "case getMetadata sid w of Some m \<Rightarrow> status m \<noteq> Completed | None \<Rightarrow> True"
    by (auto simp: stored_status_def split: option.splits)
  then obtain md where md: "status md = Processing" "snapshotId md = sid"
     "ensureProcessingMetadata sid ev w = (\<lparr>metadata = md, skip = False\<rparr>, saveMetadata md w)"
    using ensure_processing by blast
  define w3 where "w3 = emit DecryptSnapshot
       (onProgress (progress_event Downloading (Percent 0) MsgDownloadingFile) (saveMetadata md w))"
  obtain ps where ps: "foldl (\<lambda>wx s. decrypt_status s wx) w3 (decrypt_statuses ev)
       = w3\<lparr>trace := trace w3 @ map Progress ps\<rparr>"
    using fold_decrypt_status by blast
  define w4 where "w4 = w3\<lparr>trace := trace w3 @ map Progress ps\<rparr>"
  have tr4: "trace w4 = trace w @ [SaveMetadata md,
        Progress (progress_event Downloading (Percent 0) MsgDownloadingFile), DecryptSnapshot]
        @ map Progress ps"
    by (simp add: w4_def w3_def)
  have got4: "getMetadata sid w4 = Some md"
    using md(2) by (simp add: w4_def w3_def getMetadata_def saveMetadata_def)
  show ?thesis
  proof (cases "decrypt_outcome ev")
    case (Inl e)
    have "w' = record_failure sid e w4"
      using run md(3) ps Inl
      by (simp add: decryptAndStreamToIndexedDBMultiWorker_def stream_try_def Let_def
            w3_def[symmetric] w4_def[symmetric])
    then have "trace w' = trace w @ ([SaveMetadata md,
        Progress (progress_event Downloading (Percent 0) MsgDownloadingFile), DecryptSnapshot]
        @ map Progress ps
        @ [SaveMetadata (md\<lparr>status := Errored, error := Some e\<rparr>),
           Progress ((progress_event StageError (Percent 0) MsgFailed)\<lparr>p_error := Some e\<rparr>)])"
      by (simp add: record_failure_trace got4 tr4)
    note tr = this
    have ch: "status_chain (stored_status sid w) (Processing # [Errored])"
      using False by (intro status_chain_first_touch) auto
    show ?thesis
      by (rule run_writes_okI[OF tr]) (use md ch in simp_all)
  next
    case (Inr d)
    define w5 where "w5 = onProgress (progress_event StageProcessing (Percent 60) MsgProcessingData) w4"
    have got5: "getMetadata sid w5 = Some md" using got4 by (simp add: w5_def)
    obtain thrown w6 where c: "cacheDecryptedSnapshotMultiWorker pf cfg ev sid d (Some md) w5 = Some (thrown, w6)"
      and fin: "r = thrown" "w' = (case thrown of None \<Rightarrow> w6 | Some e \<Rightarrow> record_failure sid e w6)"
      using run md(3) ps Inr
      by (auto simp: decryptAndStreamToIndexedDBMultiWorker_def stream_try_def Let_def
            w3_def[symmetric] w4_def[symmetric] w5_def[symmetric] split: option.splits)
    obtain new where n: "trace w6 = trace w5 @ new"
     "\<forall>m \<in> set (metadata_writes new). snapshotId m = sid"
     "case thrown of
           Some e \<Rightarrow> map status (metadata_writes new) = [Errored]
                    \<and> map_option status (getMetadata sid w6) = Some Errored
         | None \<Rightarrow> map status (metadata_writes new) = [Completed]
                 \<or> map status (metadata_writes new) = [Processing, Completed]"
      using cache_given_metadata_writes[OF c got5 md(1)] by blast
    have tr5: "trace w5 = trace w @ [SaveMetadata md,
        Progress (progress_event Downloading (Percent 0) MsgDownloadingFile), DecryptSnapshot]
        @ map Progress ps @ [Progress (progress_event StageProcessing (Percent 60) MsgProcessingData)]"
      by (simp add: w5_def tr4)
    show ?thesis
    proof (cases thrown)
      case None
      then have "trace w' = trace w @ ([SaveMetadata md,
        Progress (progress_event Downloading (Percent 0) MsgDownloadingFile), DecryptSnapshot]
        @ map Progress ps @ [Progress (progress_event StageProcessing (Percent 60) MsgProcessingData)]
        @ new)"
        using fin n(1) tr5 by simp
      note tr = this
    have ch: "status_chain (stored_status sid w) (Processing # map status (metadata_writes new))"
        using False n(3) None by (intro status_chain_first_touch) auto
      show ?thesis
        by (rule run_writes_okI[OF tr]) (use md n ch in simp_all)
    next
      case (Some e)
      then obtain em where em: "getMetadata sid w6 = Some em" "status em = Errored"
        using n(3) by auto
      have "trace w' = trace w @ ([SaveMetadata md,
        Progress (progress_event Downloading (Percent 0) MsgDownloadingFile), DecryptSnapshot]
        @ map Progress ps @ [Progress (progress_event StageProcessing (Percent 60) MsgProcessingData)]
        @ new @ [SaveMetadata (em\<lparr>status := Errored, error := Some e\<rparr>),
           Progress ((progress_event StageError (Percent 0) MsgFailed)\<lparr>p_error := Some e\<rparr>)])"
        using fin Some n(1) tr5 em by (simp add: record_failure_trace)
      note tr = this
    have ch: "status_chain (stored_status sid w)
            (Processing # (map status (metadata_writes new) @ [Errored]))"
        using False n(3) Some by (intro status_chain_first_touch) auto
      show ?thesis
        by (rule run_writes_okI[OF tr]) (use md n ch getMetadata_id[OF em(1)] in simp_all)
    qed
  qed
qed

text \<open>
  Claim C5, as stated, fails: \<^verbatim>\<open>error\<close> is not terminal. On a store whose row for the
  snapshot has status \<^verbatim>\<open>error\<close>, a run of the pipeline (here one whose decryption
  fails again) first writes the row with status \<^verbatim>\<open>processing\<close>, then with \<^verbatim>\<open>error\<close>;
  the statuses written do not follow the transitions of the specification.
\<close>

theorem error_status_not_terminal:
  "stored_status (ascii ''s1'') (test_world Errored 0) = Some Errored
   \<and> map_option (written_statuses (test_world Errored 0) \<circ> snd)
        (decryptAndStreamToIndexedDBMultiWorker test_platform \<lparr>WORKER_COUNT = 4\<rparr> test_env
            (ascii ''s1'') (test_world Errored 0)) = Some [Processing, Errored]
   \<and> \<not> spec_status_chain (Some Errored) [Processing, Errored]"
  by code_simp

text \<open>
  Claim C5, amended. In every run of the pipeline that returns (started by
  \<^verbatim>\<open>decryptAndStreamToIndexedDBMultiWorker\<close>, or by \<^verbatim>\<open>cacheDecryptedSnapshotMultiWorker\<close>
  without \<^verbatim>\<open>options.metadata\<close>), every metadata row written is the row of the snapshot, and
  the statuses written, starting from the stored one, follow \<open>status_step\<close>: a row is
  first written as \<^verbatim>\<open>processing\<close>; from \<^verbatim>\<open>processing\<close> it goes to \<^verbatim>\<open>processing\<close>,
  \<^verbatim>\<open>completed\<close> or \<^verbatim>\<open>error\<close>; from \<^verbatim>\<open>error\<close> it goes to \<^verbatim>\<open>processing\<close> (the next run
  starts over) or stays \<^verbatim>\<open>error\<close>; and a \<^verbatim>\<open>completed\<close> row is never written again, so
  \<^verbatim>\<open>completed\<close> is terminal.
\<close>

theorem metadata_status_transitions:
  assumes "decryptAndStreamToIndexedDBMultiWorker pf cfg ev sid w = Some (r, w')
         \<or> cacheDecryptedSnapshotMultiWorker pf cfg ev sid decryptedData None w = Some (r, w')"
  shows "run_writes_ok sid w w'
       \<and> (stored_status sid w = Some Completed \<longrightarrow> written_statuses w w' = [])"
proof -
  have ok: "run_writes_ok sid w w'"
    using assms stream_entry_writes cache_entry_writes by blast
  have "written_statuses w w' = []" if "stored_status sid w = Some Completed"
  proof (cases "written_statuses w w'")
    case Nil
    then show ?thesis .
  next
    case (Cons s ss)
    then show ?thesis using ok that by (simp add: run_writes_ok_def)
  qed
  then show ?thesis using ok by blast
qed

theorem metadata_status_transitions_witness:
  "decryptAndStreamToIndexedDBMultiWorker test_platform \<lparr>WORKER_COUNT = 4\<rparr> test_env
      (ascii ''s1'') (test_world Errored 0)
    = Some (Some OperationError,
        record_failure (ascii ''s1'') OperationError
          (foldl (\<lambda>wx s. decrypt_status s wx)
            (emit DecryptSnapshot
              (onProgress (progress_event Downloading (Percent 0) MsgDownloadingFile)
                (saveMetadata ((test_row Errored 0)\<lparr>status := Processing, error := None\<rparr>)
                   (test_world Errored 0))))
            (decrypt_statuses test_env)))
   \<and> run_writes_ok (ascii ''s1'') (test_world Errored 0)
        (record_failure (ascii ''s1'') OperationError
          (foldl (\<lambda>wx s. decrypt_status s wx)
            (emit DecryptSnapshot
              (onProgress (progress_event Downloading (Percent 0) MsgDownloadingFile)
                (saveMetadata ((test_row Errored 0)\<lparr>status := Processing, error := None\<rparr>)
                   (test_world Errored 0))))
            (decrypt_statuses test_env)))"
proof -
  have run: "decryptAndStreamToIndexedDBMultiWorker test_platform \<lparr>WORKER_COUNT = 4\<rparr> test_env
      (ascii ''s1'') (test_world Errored 0)
    = Some (Some OperationError,
        record_failure (ascii ''s1'') OperationError
          (foldl (\<lambda>wx s. decrypt_status s wx)
            (emit DecryptSnapshot
              (onProgress (progress_event Downloading (Percent 0) MsgDownloadingFile)
                (saveMetadata ((test_row Errored 0)\<lparr>status := Processing, error := None\<rparr>)
                   (test_world Errored 0))))
            (decrypt_statuses test_env)))"
    by (simp add: decryptAndStreamToIndexedDBMultiWorker_def stream_try_def Let_def
          ensure_not_completed[OF test_get_row] test_row_def test_env_def)
  show ?thesis
    using metadata_status_transitions[OF disjI1[OF run]] run by simp
qed

section \<open>The batch worker and the pool\<close>









lemma processNextTask_workerCount [simp]: "workerCount (processNextTask p) = workerCount p"
  by (simp add: processNextTask_def split: prod.splits)





lemma workerCount_submit [simp]:
  "workerCount (foldl (\<lambda>q (chunk, index). processChunk chunk index q) p xs) = workerCount p"
  by (induction xs arbitrary: p) (auto simp: processChunk_def)

lemma workerCount_reply [simp]: "workerCount (worker_reply x p) = workerCount p"
  by (cases x) (auto simp: worker_reply_def handleWorkerMessage_def)

lemma workerCount_replies [simp]:
  "workerCount (foldl (\<lambda>p r. worker_reply r p) p rs) = workerCount p"
  by (induction rs arbitrary: p) auto


lemma run_pool_workerCount [simp]: "workerCount (run_pool n chunks replies) = n"
  by (simp add: run_pool_def submit_all_def new_pool_def)






lemma posted_append [simp]: "posted (xs @ ys) = posted xs @ posted ys"
  by (induction xs rule: posted.induct) auto

lemma posted_map_Post [simp]: "posted (map (\<lambda>x. Post (h x)) xs) = map h xs"
  by (induction xs) auto










section \<open>Double-precision numbers\<close>

lemma bit_length_upper: "n < 2 ^ bit_length n"
proof (induction n rule: bit_length.induct)
  case (1 n)
  show ?case
  proof (cases "n = 0")
    case True
    then show ?thesis by (simp add: bit_length.simps)
  next
    case False
    then have "n div 2 < 2 ^ bit_length (n div 2)" using 1 by simp
    then have "n < 2 * 2 ^ bit_length (n div 2)" by linarith
    then show ?thesis using False by (subst bit_length.simps) simp
  qed
qed

lemma bit_length_lower: "0 < n \<Longrightarrow> 2 ^ (bit_length n - 1) \<le> n"
proof (induction n rule: bit_length.induct)
  case (1 n)
  show ?case
  proof (cases "n div 2 = 0")
    case True
    then have "bit_length (n div 2) = 0" by (simp add: bit_length.simps)
    then have "bit_length n = 1" using "1.prems" by (subst bit_length.simps) simp
    then show ?thesis using "1.prems" by simp
  next
    case False
    then have ih: "2 ^ (bit_length (n div 2) - 1) \<le> n div 2" using 1 by simp
    have pos: "0 < bit_length (n div 2)" using False by (subst bit_length.simps) simp
    have "bit_length n = Suc (bit_length (n div 2))"
      using "1.prems" by (subst bit_length.simps) simp
    then have "2 ^ (bit_length n - 1) = 2 * 2 ^ (bit_length (n div 2) - 1)"
      using pos by (cases "bit_length (n div 2)") simp_all
    also have "\<dots> \<le> 2 * (n div 2)" using ih by simp
    also have "\<dots> \<le> n" by simp
    finally show ?thesis .
  qed
qed

lemma pow2_power_int: "pow2 e = power_int 2 e"
  by (simp add: pow2_def power_int_def inverse_eq_divide power_one_over)

lemma pow2_pos: "0 < pow2 e"
  by (simp add: pow2_def)

lemma pow2_add: "pow2 (a + b) = pow2 a * pow2 b"
  by (simp add: pow2_power_int power_int_add)

lemma pow2_nat: "pow2 (int n) = 2 ^ n"
  by (simp add: pow2_def)

lemma pow2_neg_nat: "pow2 (- int n) = 1 / 2 ^ n"
  by (cases "n = 0") (simp_all add: pow2_def)

lemma pow2_divide: "pow2 a / pow2 b = pow2 (a - b)"
  using pow2_add[of "a - b" b] pow2_pos[of b] by simp

lemma pow2_mono: "a \<le> b \<Longrightarrow> pow2 a \<le> pow2 b"
  by (simp add: pow2_power_int power_int_increasing)

lemma pow2_less_imp: "pow2 a < pow2 b \<Longrightarrow> a < b"
  using pow2_mono[of b a] by (cases "a < b") auto

text \<open>\<open>floor_log2\<close> is the exponent of a positive number.\<close>

lemma floor_log2_bounds:
  assumes "0 < x"
  shows "pow2 (floor_log2 x) \<le> x \<and> x < pow2 (floor_log2 x + 1)"
proof (cases "1 \<le> x")
  case True
  let ?n = "nat \<lfloor>x\<rfloor>"
  have n: "0 < ?n" using True by simp
  have fl: "floor_log2 x = int (bit_length ?n) - 1" using True by (simp add: floor_log2_def)
  have b: "0 < bit_length ?n" using n by (subst bit_length.simps) simp
  have e: "floor_log2 x = int (bit_length ?n - 1)" using fl b by simp
  have "(2::rat) ^ (bit_length ?n - 1) \<le> of_nat ?n"
    using bit_length_lower[OF n] by (metis of_nat_le_iff of_nat_numeral of_nat_power)
  also have "\<dots> \<le> x" using True by (simp add: of_nat_nat)
  finally have lo: "pow2 (floor_log2 x) \<le> x" unfolding e pow2_nat .
  have "\<lfloor>x\<rfloor> + 1 \<le> 2 ^ bit_length ?n"
  proof -
    have "Suc ?n \<le> 2 ^ bit_length ?n" by (rule Suc_leI) (rule bit_length_upper)
    then have "int (Suc ?n) \<le> int (2 ^ bit_length ?n)" by (simp only: of_nat_le_iff)
    then show ?thesis using True by simp
  qed
  then have "(of_int (\<lfloor>x\<rfloor> + 1) :: rat) \<le> of_int (2 ^ bit_length ?n)"
    by (simp only: of_int_le_iff)
  then have "x < 2 ^ bit_length ?n"
    using floor_correct[of x] by simp
  moreover have "floor_log2 x + 1 = int (bit_length ?n)" using fl by simp
  ultimately have "x < pow2 (floor_log2 x + 1)" by (simp add: pow2_nat)
  with lo show ?thesis by simp
next
  case False
  let ?y = "1 / x"
  let ?m = "nat (\<lceil>?y\<rceil> - 1)"
  have y: "1 < ?y" using False assms by simp
  then have c: "2 \<le> \<lceil>?y\<rceil>" by linarith
  then have c': "0 < \<lceil>?y\<rceil> - 1" by linarith
  then have m: "0 < ?m" by (simp only: zero_less_nat_eq)
  have mi: "int ?m = \<lceil>?y\<rceil> - 1" by (rule nat_0_le) (use c' in linarith)
  have fl: "floor_log2 x = - int (bit_length ?m)" using False by (simp add: floor_log2_def)
  have b: "0 < bit_length ?m" using m by (subst bit_length.simps) simp
  have "int ?m + 1 \<le> 2 ^ bit_length ?m"
  proof -
    have "Suc ?m \<le> 2 ^ bit_length ?m" by (rule Suc_leI) (rule bit_length_upper)
    then have "int (Suc ?m) \<le> int (2 ^ bit_length ?m)" by (simp only: of_nat_le_iff)
    then show ?thesis by simp
  qed
  then have "\<lceil>?y\<rceil> \<le> 2 ^ bit_length ?m" using mi by simp
  then have "?y \<le> of_int (2 ^ bit_length ?m)" by (simp only: ceiling_le_iff)
  then have "?y \<le> 2 ^ bit_length ?m" by simp
  then have "1 \<le> 2 ^ bit_length ?m * x" using assms by (simp add: field_simps)
  then have lo: "pow2 (floor_log2 x) \<le> x"
    unfolding fl pow2_neg_nat by (simp add: field_simps)
  have "2 ^ (bit_length ?m - 1) \<le> ?m" by (rule bit_length_lower[OF m])
  then have "int (2 ^ (bit_length ?m - 1)) \<le> int ?m" by (simp only: of_nat_le_iff)
  then have "2 ^ (bit_length ?m - 1) \<le> \<lceil>?y\<rceil> - 1" using mi by simp
  then have "2 ^ (bit_length ?m - 1) < \<lceil>?y\<rceil>" by linarith
  then have "of_int (2 ^ (bit_length ?m - 1)) < ?y" by (simp only: less_ceiling_iff)
  then have "(2::rat) ^ (bit_length ?m - 1) < ?y" by simp
  then have "2 ^ (bit_length ?m - 1) * x < 1" using assms by (simp add: field_simps)
  then have hi': "x < 1 / 2 ^ (bit_length ?m - 1)" by (simp add: field_simps)
  have "floor_log2 x + 1 = - int (bit_length ?m - 1)" using fl b by simp
  then have "x < pow2 (floor_log2 x + 1)" using hi' by (simp only: pow2_neg_nat)
  with lo show ?thesis by simp
qed

lemma round_half_even_int: "round_half_even (of_int z) = z"
  by (simp add: round_half_even_def)

text \<open>A multiple of \<open>2\<^sup>-\<^sup>k\<close> with fewer than 54 binary digits is a double.\<close>

lemma to_double_dyadic:
  assumes "n < 2 ^ 53" "k \<le> 1074"
  shows "to_double (of_nat n / 2 ^ k) = Finite (of_nat n / 2 ^ k)"
proof (cases "n = 0")
  case True
  then show ?thesis by (simp add: to_double_def)
next
  case False
  let ?x = "of_nat n / 2 ^ k :: rat"
  have x: "0 < ?x" using False by simp
  let ?e = "max (floor_log2 \<bar>?x\<bar>) (- 1022)"
  have ax: "\<bar>?x\<bar> = ?x" using x by simp
  have "(of_nat n :: rat) < 2 ^ 53"
    using assms(1) by (metis of_nat_less_iff of_nat_numeral of_nat_power)
  then have "?x < 2 ^ 53 / 2 ^ k" by (simp add: divide_strict_right_mono)
  also have "\<dots> = pow2 (53 - int k)"
    using pow2_add[of 53 "- int k"] by (simp add: pow2_neg_nat pow2_def)
  finally have xhi: "?x < pow2 (53 - int k)" .
  have "pow2 (floor_log2 ?x) < pow2 (53 - int k)"
    using floor_log2_bounds[OF x] xhi by linarith
  then have "floor_log2 ?x < 53 - int k" by (rule pow2_less_imp)
  then have e: "?e \<le> 52 - int k" using assms(2) unfolding ax by simp
  define j where "j = nat (52 - int k - ?e)"
  have j: "int j = 52 - int k - ?e" using e by (simp add: j_def)
  have "?x / pow2 (?e - 52) = of_nat n * (pow2 (- int k) / pow2 (?e - 52))"
    by (simp add: pow2_neg_nat)
  also have "pow2 (- int k) / pow2 (?e - 52) = pow2 (int j)"
    unfolding pow2_divide j by (rule arg_cong[of _ _ pow2]) simp
  finally have q: "?x / pow2 (?e - 52) = of_int (int (n * 2 ^ j))"
    by (simp add: pow2_nat)
  have r: "of_int (round_half_even (?x / pow2 (?e - 52))) * pow2 (?e - 52) = ?x"
    unfolding q round_half_even_int using q pow2_pos[of "?e - 52"]
    by (metis nonzero_divide_eq_eq less_irrefl)
  have "pow2 (53 - int k) \<le> pow2 1024" by (rule pow2_mono) simp
  then have "\<not> pow2 1024 \<le> \<bar>?x\<bar>" using xhi ax by linarith
  then show ?thesis
    using x r unfolding to_double_def Let_def by (simp only: ax) auto
qed

lemma floor_log2_unique:
  assumes "pow2 e \<le> x" "x < pow2 (e + 1)"
  shows "floor_log2 x = e"
proof -
  have x: "0 < x" using assms(1) pow2_pos[of e] by linarith
  note b = floor_log2_bounds[OF x]
  have "pow2 (floor_log2 x) < pow2 (e + 1)" using b assms(2) by linarith
  then have "floor_log2 x < e + 1" by (rule pow2_less_imp)
  moreover have "pow2 e < pow2 (floor_log2 x + 1)" using b assms(1) by linarith
  then have "e < floor_log2 x + 1" by (rule pow2_less_imp)
  ultimately show ?thesis by simp
qed

lemma round_half_even_near:
  assumes "of_int m - 1 / 2 < x" "x < of_int m + 1 / 2"
  shows "round_half_even x = m"
proof (cases "of_int m \<le> x")
  case True
  then have "\<lfloor>x\<rfloor> = m" using assms(2) by (intro floor_unique) auto
  then show ?thesis using assms(2) by (simp add: round_half_even_def)
next
  case False
  then have f: "\<lfloor>x\<rfloor> = m - 1" using assms(1) by (intro floor_unique) auto
  have "1 / 2 < x - of_int (m - 1)" using assms(1) by simp
  then show ?thesis unfolding round_half_even_def f Let_def by simp
qed

text \<open>The double of a positive number that is not half-way between two doubles, from
  its exponent and its significand.\<close>

lemma to_double_near:
  assumes "pow2 e \<le> x" "x < pow2 (e + 1)" "- 1022 \<le> e"
    and "of_int m - 1 / 2 < x / pow2 (e - 52)" "x / pow2 (e - 52) < of_int m + 1 / 2"
    and "of_int m * pow2 (e - 52) < pow2 1024" "0 \<le> m"
  shows "to_double x = Finite (of_int m * pow2 (e - 52))"
proof -
  have x: "0 < x" using assms(1) pow2_pos[of e] by linarith
  have e: "max (floor_log2 \<bar>x\<bar>) (- 1022) = e"
    using floor_log2_unique[OF assms(1,2)] assms(3) x by simp
  have r: "round_half_even (x / pow2 (e - 52)) = m"
    by (rule round_half_even_near[OF assms(4,5)])
  have "\<bar>of_int m * pow2 (e - 52)\<bar> = of_int m * pow2 (e - 52)"
    using assms(7) pow2_pos[of "e - 52"] by simp
  then have "\<not> pow2 1024 \<le> \<bar>of_int m * pow2 (e - 52)\<bar>" using assms(6) by linarith
  then show ?thesis
    using x unfolding to_double_def Let_def e r by simp
qed

lemma to_double_numeral:
  "numeral w < (2::nat) ^ 53 \<Longrightarrow> to_double (numeral w) = Finite (numeral w)"
  using to_double_dyadic[of "numeral w" 0] by simp

lemma to_double_zero: "to_double 0 = Finite 0"
  by (simp add: to_double_def)

lemma rounded_25: "to_double (20 + (5 + 1 / 2 ^ 50)) = Finite 25"
proof -
  have "to_double (20 + (5 + 1 / 2 ^ 50)) = Finite (of_int (25 * 2 ^ 48) * pow2 (4 - 52))"
    by (rule to_double_near) (simp_all add: pow2_def)
  then show ?thesis by (simp add: pow2_def)
qed


section \<open>Prefetch scheduling\<close>

lemma map_set_fresh: "k \<notin> fst ` set m \<Longrightarrow> map_set k v m = m @ [(k, v)]"
  by (simp add: map_set_def)

lemma map_delete_nth:
  assumes "distinct (map fst m)" "i < length m"
  shows "map_delete (fst (m ! i)) m = take i m @ drop (Suc i) m"
  using assms
proof (induction m arbitrary: i)
  case Nil
  then show ?case by simp
next
  case (Cons x xs)
  show ?case
  proof (cases i)
    case 0
    have "filter (\<lambda>(k', v'). k' \<noteq> fst x) xs = xs"
      using Cons.prems(1) by (auto simp: filter_id_conv) (metis fst_conv image_eqI)
    then show ?thesis using 0 by (simp add: map_delete_def case_prod_unfold)
  next
    case (Suc j)
    then have j: "j < length xs" using Cons.prems(2) by simp
    have "fst (xs ! j) \<noteq> fst x"
      using Cons.prems(1) j by (metis distinct.simps(2) list.simps(9) nth_map nth_mem length_map)
    moreover have "map_delete (fst (xs ! j)) xs = take j xs @ drop (Suc j) xs"
      using Cons.IH[of j] Cons.prems(1) j by simp
    ultimately show ?thesis
      using Suc by (simp add: map_delete_def case_prod_unfold)
  qed
qed

lemma sum_list_remove_nth:
  fixes xs :: "rat list"
  assumes "i < length xs"
  shows "sum_list (take i xs @ drop (Suc i) xs) = sum_list xs - xs ! i"
proof -
  have "xs = take i xs @ xs ! i # drop (Suc i) xs"
    using assms by (simp add: id_take_nth_drop)
  then have "sum_list xs = sum_list (take i xs) + xs ! i + sum_list (drop (Suc i) xs)"
    by (metis sum_list.Cons sum_list.append add.assoc)
  then show ?thesis by simp
qed

subsection \<open>The scheduler's own test\<close>

text \<open>One pass of the loop of \<^verbatim>\<open>schedulePrefetch\<close>: the state after the next snapshot
  has been started.\<close>

lemma schedulePrefetch_stops:
  assumes "\<not> (nextToSchedule s < length allSnapshots \<and>
          (double_le (double_add (inFlightMb s) (snd (allSnapshots ! nextToSchedule s)))
             PREFETCH_SIZE_LIMIT_MB
           \<or> length (activePreparations s) = 0))"
  shows "schedulePrefetch allSnapshots s = s"
  using assms by (subst schedulePrefetch.simps) (auto simp: Let_def)

lemma schedulePrefetch_starts:
  assumes "nextToSchedule s < length allSnapshots \<and>
          (double_le (double_add (inFlightMb s) (snd (allSnapshots ! nextToSchedule s)))
             PREFETCH_SIZE_LIMIT_MB
           \<or> length (activePreparations s) = 0)"
  shows "schedulePrefetch allSnapshots s
     = schedulePrefetch allSnapshots
         ((startPreparation (allSnapshots ! nextToSchedule s)
             (snd (allSnapshots ! nextToSchedule s)) s)
          \<lparr>nextToSchedule := nextToSchedule s + 1\<rparr>)"
  using assms by (subst schedulePrefetch.simps) (auto simp: Let_def)

lemma next_snapshot_fresh:
  assumes "distinct (map fst allSnapshots)" "n < length allSnapshots"
    and "set flying \<subseteq> set (take n allSnapshots)"
  shows "fst (allSnapshots ! n) \<notin> fst ` set flying"
    and "take (Suc n) allSnapshots = take n allSnapshots @ [allSnapshots ! n]"
proof -
  show tk: "take (Suc n) allSnapshots = take n allSnapshots @ [allSnapshots ! n]"
    using assms(2) by (simp add: take_Suc_conv_app_nth)
  have "distinct (map fst (take (Suc n) allSnapshots))"
    using assms(1) by (simp add: distinct_take take_map[symmetric])
  then have "fst (allSnapshots ! n) \<notin> fst ` set (take n allSnapshots)"
    by (simp add: tk)
  then show "fst (allSnapshots ! n) \<notin> fst ` set flying"
    using assms(3) by blast
qed

lemma start_step_inv:
  assumes d: "distinct (map fst allSnapshots)" and i: "prefetch_inv allSnapshots s"
    and g: "nextToSchedule s < length allSnapshots \<and>
          (double_le (double_add (inFlightMb s) (snd (allSnapshots ! nextToSchedule s)))
             PREFETCH_SIZE_LIMIT_MB
           \<or> length (activePreparations s) = 0)"
  shows "prefetch_inv allSnapshots
           ((startPreparation (allSnapshots ! nextToSchedule s)
               (snd (allSnapshots ! nextToSchedule s)) s)
            \<lparr>nextToSchedule := nextToSchedule s + 1\<rparr>)"
proof -
  let ?n = "nextToSchedule s"
  let ?snap = "allSnapshots ! ?n"
  have inv: "activePreparations s = in_flight s"
       "distinct (map fst (in_flight s))"
       "set (in_flight s) \<subseteq> set (take ?n allSnapshots)"
       "list_all start_within_budget (starts s)"
    using i by (simp_all add: prefetch_inv_def)
  have n: "?n < length allSnapshots" using g by simp
  note fr = next_snapshot_fresh[OF d n inv(3)]
  have act: "map_set (fst ?snap) (snd ?snap) (activePreparations s) = in_flight s @ [?snap]"
    using fr(1) inv(1) by (simp add: map_set_fresh)
  have bud: "start_within_budget (?snap, in_flight s @ [?snap], inFlightMb s)"
    using g inv(1) by (auto simp: start_within_budget_def)
  show ?thesis
    using inv fr act bud by (auto simp: prefetch_inv_def startPreparation_def)
qed

lemma schedulePrefetch_inv:
  assumes "distinct (map fst allSnapshots)" "prefetch_inv allSnapshots s"
  shows "prefetch_inv allSnapshots (schedulePrefetch allSnapshots s)"
  using assms
proof (induction allSnapshots s rule: schedulePrefetch.induct)
  case (1 allSnapshots s)
  let ?n = "nextToSchedule s"
  show ?case
  proof (cases "?n < length allSnapshots \<and>
          (double_le (double_add (inFlightMb s) (snd (allSnapshots ! ?n))) PREFETCH_SIZE_LIMIT_MB
           \<or> length (activePreparations s) = 0)")
    case False
    show ?thesis
      using "1.prems"(2) schedulePrefetch_stops[OF False] by simp
  next
    case True
    let ?snap = "allSnapshots ! ?n"
    let ?s' = "(startPreparation ?snap (snd ?snap) s)\<lparr>nextToSchedule := ?n + 1\<rparr>"
    have n: "?n < length allSnapshots" using True by simp
    have "prefetch_inv allSnapshots ?s'"
      by (rule start_step_inv[OF "1.prems" True])
    then have "prefetch_inv allSnapshots (schedulePrefetch allSnapshots ?s')"
      using "1.IH"[OF n refl refl refl _ "1.prems"(1)] True by (simp add: Let_def)
    then show ?thesis by (simp only: schedulePrefetch_starts[OF True])
  qed
qed

lemma settle_step_inv:
  assumes i: "prefetch_inv allSnapshots s" and t: "i < length (in_flight s)"
    and x: "in_flight s ! i = (sid, sz)"
  shows "prefetch_inv allSnapshots
           (s\<lparr>inFlightMb := double_sub (inFlightMb s) sz,
              activePreparations := map_delete sid (activePreparations s),
              in_flight := take i (in_flight s) @ drop (Suc i) (in_flight s)\<rparr>)"
proof -
  have inv: "activePreparations s = in_flight s"
       "distinct (map fst (in_flight s))"
       "set (in_flight s) \<subseteq> set (take (nextToSchedule s) allSnapshots)"
       "list_all start_within_budget (starts s)"
    using i by (simp_all add: prefetch_inv_def)
  have d: "map_delete sid (in_flight s) = take i (in_flight s) @ drop (Suc i) (in_flight s)"
    using map_delete_nth[OF inv(2) t] x by simp
  have sub: "set (take i (in_flight s) @ drop (Suc i) (in_flight s)) \<subseteq> set (in_flight s)"
    by (auto dest: in_set_takeD in_set_dropD)
  have dis: "distinct (map fst (take i (in_flight s) @ drop (Suc i) (in_flight s)))"
    using inv(2) d[symmetric] by (simp add: map_delete_def distinct_map_filter)
  show ?thesis
    using inv d sub dis by (auto simp: prefetch_inv_def)
qed

lemma preparation_settled_inv:
  assumes "distinct (map fst allSnapshots)" "prefetch_inv allSnapshots s"
  shows "prefetch_inv allSnapshots (preparation_settled allSnapshots i s)"
proof (cases "i < length (in_flight s)")
  case False
  then show ?thesis using assms(2) by (simp add: preparation_settled_def)
next
  case True
  obtain sid sz where x: "in_flight s ! i = (sid, sz)" by (cases "in_flight s ! i")
  show ?thesis
    using True x schedulePrefetch_inv[OF assms(1) settle_step_inv[OF assms(2) True x]]
    by (simp add: preparation_settled_def)
qed

lemma prefetch_inv_init: "prefetch_inv allSnapshots prefetch_init"
  by (simp add: prefetch_inv_def prefetch_init_def)

lemma bulk_run_inv:
  assumes "distinct (map fst allSnapshots)"
  shows "prefetch_inv allSnapshots (bulk_run allSnapshots events)"
proof -
  have "prefetch_inv allSnapshots (foldl (\<lambda>s i. preparation_settled allSnapshots i s) s events)"
    if "prefetch_inv allSnapshots s" for s
    using that
    by (induction events arbitrary: s) (simp_all add: preparation_settled_inv[OF assms])
  then show ?thesis
    using schedulePrefetch_inv[OF assms prefetch_inv_init] by (simp add: bulk_run_def)
qed

text \<open>After \<^verbatim>\<open>schedulePrefetch\<close>, snapshots are left to schedule only while the map of
  active preparations is not empty.\<close>

lemma schedulePrefetch_progress:
  "nextToSchedule (schedulePrefetch allSnapshots s) < length allSnapshots
     \<Longrightarrow> activePreparations (schedulePrefetch allSnapshots s) \<noteq> []"
proof (induction allSnapshots s rule: schedulePrefetch.induct)
  case (1 allSnapshots s)
  let ?n = "nextToSchedule s"
  show ?case
  proof (cases "?n < length allSnapshots \<and>
          (double_le (double_add (inFlightMb s) (snd (allSnapshots ! ?n))) PREFETCH_SIZE_LIMIT_MB
           \<or> length (activePreparations s) = 0)")
    case False
    then have e: "schedulePrefetch allSnapshots s = s" by (rule schedulePrefetch_stops)
    then show ?thesis using False "1.prems" by auto
  next
    case True
    let ?snap = "allSnapshots ! ?n"
    let ?s' = "(startPreparation ?snap (snd ?snap) s)\<lparr>nextToSchedule := ?n + 1\<rparr>"
    note e = schedulePrefetch_starts[OF True]
    show ?thesis
      using "1.IH"[of ?snap "snd ?snap" True] True "1.prems" unfolding e by simp
  qed
qed

lemma preparation_settled_progress:
  assumes "nextToSchedule s < length allSnapshots \<longrightarrow> activePreparations s \<noteq> []"
  shows "nextToSchedule (preparation_settled allSnapshots i s) < length allSnapshots
     \<longrightarrow> activePreparations (preparation_settled allSnapshots i s) \<noteq> []"
  using assms schedulePrefetch_progress
  by (auto simp: preparation_settled_def split: prod.splits)

lemma bulk_run_progress:
  "nextToSchedule (bulk_run allSnapshots events) < length allSnapshots
     \<longrightarrow> activePreparations (bulk_run allSnapshots events) \<noteq> []"
proof -
  have "nextToSchedule (foldl (\<lambda>s i. preparation_settled allSnapshots i s) s events)
            < length allSnapshots
     \<longrightarrow> activePreparations (foldl (\<lambda>s i. preparation_settled allSnapshots i s) s events) \<noteq> []"
    if "nextToSchedule s < length allSnapshots \<longrightarrow> activePreparations s \<noteq> []" for s
    using that
  proof (induction events arbitrary: s)
    case Nil
    then show ?case by simp
  next
    case (Cons e es)
    from Cons.IH[OF preparation_settled_progress[OF Cons.prems, of e]]
    show ?case by simp
  qed
  then show ?thesis
    using schedulePrefetch_progress[of allSnapshots prefetch_init] by (simp add: bulk_run_def)
qed

subsection \<open>Runs in which nothing is rounded\<close>

lemma sum_list_subset_le:
  fixes f :: "'a \<Rightarrow> nat"
  assumes "distinct xs" "set xs \<subseteq> set ys"
  shows "sum_list (map f xs) \<le> sum_list (map f ys)"
proof -
  have "sum_list (map f xs) = sum f (set xs)"
    using assms(1) by (simp add: sum_list_distinct_conv_sum_set)
  also have "\<dots> \<le> sum f (set ys)"
    using assms(2) by (intro sum_mono2) auto
  also have "\<dots> \<le> sum_list (map f ys)"
  proof (induction ys)
    case Nil
    then show ?case by simp
  next
    case (Cons y ys)
    have "sum f (set (y # ys)) \<le> f y + sum f (set ys)"
      by (cases "y \<in> set ys") (simp_all add: insert_absorb)
    then show ?case using Cons by simp
  qed
  finally show ?thesis .
qed

lemma dyadic_value: "d = dyadic k n \<Longrightarrow> mb_value d = of_nat n / 2 ^ k"
  by (simp add: dyadic_def mb_value_def)

lemma dyadic_finite: "d = dyadic k n \<Longrightarrow> d = Finite (mb_value d)"
  by (simp add: dyadic_def mb_value_def)

lemma double_add_finite:
  assumes "a = Finite x" "b = Finite (mb_value b)"
  shows "double_add a b = to_double (x + mb_value b)"
  using assms by (cases b) (simp_all add: mb_value_def)

lemma double_sub_finite:
  assumes "a = Finite x" "b = Finite (mb_value b)"
  shows "double_sub a b = to_double (x - mb_value b)"
  using assms by (cases b) (simp_all add: mb_value_def double_sub_def)

lemma exact_total_dyadic:
  assumes "list_all (\<lambda>p. snd p = dyadic k (u p)) flying"
  shows "exact_total flying = of_nat (sum_list (map u flying)) / 2 ^ k"
  using assms
proof (induction flying)
  case Nil
  then show ?case by (simp add: exact_total_def)
next
  case (Cons p ps)
  from Cons.prems have hp: "snd p = dyadic k (u p)"
    and hps: "list_all (\<lambda>p. snd p = dyadic k (u p)) ps"
    by simp_all
  have v: "mb_value (snd p) = of_nat (u p) / 2 ^ k" by (rule dyadic_value[OF hp])
  have "exact_total ps = of_nat (sum_list (map u ps)) / 2 ^ k"
    by (rule Cons.IH[OF hps])
  then have "exact_total (p # ps)
     = of_nat (u p) / 2 ^ k + of_nat (sum_list (map u ps)) / 2 ^ k"
    using v by (simp add: exact_total_def)
  then show ?case
    by (simp add: add_divide_distrib)
qed

lemma exact_total_units:
  assumes "list_all (\<lambda>p. snd p = dyadic k (nat \<lfloor>mb_value (snd p) * 2 ^ k\<rfloor>)) flying"
  shows "exact_total flying
     = of_nat (sum_list (map (\<lambda>p. nat \<lfloor>mb_value (snd p) * 2 ^ k\<rfloor>) flying)) / 2 ^ k"
  using assms by (rule exact_total_dyadic)

lemma to_double_total:
  assumes e: "exact_sizes k allSnapshots" and d: "distinct (map fst flying)"
    and s: "set flying \<subseteq> set allSnapshots"
  shows "to_double (exact_total flying) = Finite (exact_total flying)"
proof -
  let ?u = "\<lambda>p. nat \<lfloor>mb_value (snd p) * 2 ^ k\<rfloor>"
  let ?P = "\<lambda>p. snd p = dyadic k (?u p)"
  have k: "k \<le> 1074" and all: "list_all ?P allSnapshots"
    and lim: "exact_total allSnapshots * 2 ^ k < 2 ^ 53"
    using e by (simp_all add: exact_sizes_def)
  have fl: "list_all ?P flying" using all s by (auto simp: list_all_iff)
  have "distinct flying" using d by (rule distinct_map[THEN iffD1, THEN conjunct1])
  then have le: "sum_list (map ?u flying) \<le> sum_list (map ?u allSnapshots)"
    using s by (rule sum_list_subset_le)
  have "(of_nat (sum_list (map ?u allSnapshots)) :: rat) < 2 ^ 53"
    using lim unfolding exact_total_units[OF all] by simp
  then have "sum_list (map ?u allSnapshots) < 2 ^ 53"
    by (metis of_nat_less_iff of_nat_numeral of_nat_power)
  then have "sum_list (map ?u flying) < 2 ^ 53" using le by linarith
  then show ?thesis
    unfolding exact_total_units[OF fl] using k by (rule to_double_dyadic)
qed

lemma exact_size_finite:
  assumes "exact_sizes k allSnapshots" "p \<in> set allSnapshots"
  shows "snd p = Finite (mb_value (snd p))"
proof -
  have "list_all (\<lambda>p. snd p = dyadic k (nat \<lfloor>mb_value (snd p) * 2 ^ k\<rfloor>)) allSnapshots"
    using assms(1) by (simp add: exact_sizes_def)
  then have "snd p = dyadic k (nat \<lfloor>mb_value (snd p) * 2 ^ k\<rfloor>)"
    using assms(2) unfolding list_all_iff by (rule bspec)
  then show ?thesis by (rule dyadic_finite)
qed

lemma start_step_exact:
  assumes d: "distinct (map fst allSnapshots)" and e: "exact_sizes k allSnapshots"
    and i: "prefetch_inv allSnapshots s" and x: "exact_inv s"
    and g: "nextToSchedule s < length allSnapshots \<and>
          (double_le (double_add (inFlightMb s) (snd (allSnapshots ! nextToSchedule s)))
             PREFETCH_SIZE_LIMIT_MB
           \<or> length (activePreparations s) = 0)"
  shows "exact_inv
           ((startPreparation (allSnapshots ! nextToSchedule s)
               (snd (allSnapshots ! nextToSchedule s)) s)
            \<lparr>nextToSchedule := nextToSchedule s + 1\<rparr>)"
proof -
  let ?n = "nextToSchedule s"
  let ?snap = "allSnapshots ! ?n"
  let ?fl = "in_flight s @ [?snap]"
  have inv: "activePreparations s = in_flight s"
       "distinct (map fst (in_flight s))"
       "set (in_flight s) \<subseteq> set (take ?n allSnapshots)"
    using i by (simp_all add: prefetch_inv_def)
  have n: "?n < length allSnapshots" using g by simp
  note fr = next_snapshot_fresh[OF d n inv(3)]
  have sn: "snd ?snap = Finite (mb_value (snd ?snap))"
    using exact_size_finite[OF e] n by simp
  have dis: "distinct (map fst ?fl)" using inv(2) fr(1) by simp
  have sub: "set ?fl \<subseteq> set allSnapshots"
    using inv(3) n by (auto dest: in_set_takeD)
  have tot: "exact_total ?fl = exact_total (in_flight s) + mb_value (snd ?snap)"
    by (simp add: exact_total_def)
  have cnt: "inFlightMb s = Finite (exact_total (in_flight s))"
    using x by (simp add: exact_inv_def)
  have "double_add (inFlightMb s) (snd ?snap) = to_double (exact_total ?fl)"
    unfolding tot by (rule double_add_finite[OF cnt sn])
  then have c: "double_add (inFlightMb s) (snd ?snap) = Finite (exact_total ?fl)"
    by (simp only: to_double_total[OF e dis sub])
  have "sizes_within_budget (?snap, ?fl, inFlightMb s)"
    using g inv(1) c
    by (auto simp: sizes_within_budget_def PREFETCH_SIZE_LIMIT_MB_def)
  then show ?thesis
    using x c by (simp add: exact_inv_def startPreparation_def)
qed

lemma schedulePrefetch_exact:
  assumes "distinct (map fst allSnapshots)" "exact_sizes k allSnapshots"
    and "prefetch_inv allSnapshots s" "exact_inv s"
  shows "exact_inv (schedulePrefetch allSnapshots s)"
  using assms
proof (induction allSnapshots s rule: schedulePrefetch.induct)
  case (1 allSnapshots s)
  let ?n = "nextToSchedule s"
  show ?case
  proof (cases "?n < length allSnapshots \<and>
          (double_le (double_add (inFlightMb s) (snd (allSnapshots ! ?n))) PREFETCH_SIZE_LIMIT_MB
           \<or> length (activePreparations s) = 0)")
    case False
    show ?thesis
      using "1.prems"(4) schedulePrefetch_stops[OF False] by simp
  next
    case True
    let ?snap = "allSnapshots ! ?n"
    let ?s' = "(startPreparation ?snap (snd ?snap) s)\<lparr>nextToSchedule := ?n + 1\<rparr>"
    have n: "?n < length allSnapshots" using True by simp
    have p: "prefetch_inv allSnapshots ?s'"
      by (rule start_step_inv[OF "1.prems"(1,3) True])
    have x: "exact_inv ?s'"
      by (rule start_step_exact[OF "1.prems" True])
    have "exact_inv (schedulePrefetch allSnapshots ?s')"
      using "1.IH"[OF n refl refl refl _ "1.prems"(1,2) p x] True by (simp add: Let_def)
    then show ?thesis by (simp only: schedulePrefetch_starts[OF True])
  qed
qed

lemma settle_step_exact:
  assumes d: "distinct (map fst allSnapshots)" and e: "exact_sizes k allSnapshots"
    and i: "prefetch_inv allSnapshots s" and x: "exact_inv s"
    and t: "i < length (in_flight s)" and y: "in_flight s ! i = (sid, sz)"
  shows "exact_inv
           (s\<lparr>inFlightMb := double_sub (inFlightMb s) sz,
              activePreparations := map_delete sid (activePreparations s),
              in_flight := take i (in_flight s) @ drop (Suc i) (in_flight s)\<rparr>)"
proof -
  let ?fl = "take i (in_flight s) @ drop (Suc i) (in_flight s)"
  have p: "prefetch_inv allSnapshots
           (s\<lparr>inFlightMb := double_sub (inFlightMb s) sz,
              activePreparations := map_delete sid (activePreparations s),
              in_flight := ?fl\<rparr>)"
    by (rule settle_step_inv[OF i t y])
  then have dis: "distinct (map fst ?fl)" and sub: "set ?fl \<subseteq> set allSnapshots"
    by (auto simp: prefetch_inv_def dest: in_set_takeD)
  have "in_flight s ! i \<in> set (in_flight s)" using t by (rule nth_mem)
  moreover have "set (in_flight s) \<subseteq> set (take (nextToSchedule s) allSnapshots)"
    using i by (simp add: prefetch_inv_def)
  ultimately have "(sid, sz) \<in> set (take (nextToSchedule s) allSnapshots)"
    unfolding y by (rule subsetD[rotated])
  then have mem: "(sid, sz) \<in> set allSnapshots" by (rule in_set_takeD)
  have sz: "sz = Finite (mb_value sz)" using exact_size_finite[OF e mem] by (simp only: snd_conv)
  have tot: "exact_total ?fl = exact_total (in_flight s) - mb_value sz"
    using sum_list_remove_nth[of i "map (\<lambda>p. mb_value (snd p)) (in_flight s)"] t y
    by (simp add: exact_total_def take_map drop_map)
  have cnt: "inFlightMb s = Finite (exact_total (in_flight s))"
    using x by (simp add: exact_inv_def)
  have "double_sub (inFlightMb s) sz = to_double (exact_total (in_flight s) - mb_value sz)"
    by (rule double_sub_finite[OF cnt sz])
  then have "double_sub (inFlightMb s) sz = Finite (exact_total ?fl)"
    using to_double_total[OF e dis sub] by (simp only: tot)
  then show ?thesis using x by (simp add: exact_inv_def)
qed

lemma preparation_settled_exact:
  assumes "distinct (map fst allSnapshots)" "exact_sizes k allSnapshots"
    and "prefetch_inv allSnapshots s" "exact_inv s"
  shows "exact_inv (preparation_settled allSnapshots i s)"
proof (cases "i < length (in_flight s)")
  case False
  then show ?thesis using assms(4) by (simp add: preparation_settled_def)
next
  case True
  obtain sid sz where x: "in_flight s ! i = (sid, sz)" by (cases "in_flight s ! i")
  show ?thesis
    using True x
      schedulePrefetch_exact[OF assms(1,2) settle_step_inv[OF assms(3) True x]
        settle_step_exact[OF assms True x]]
    by (simp add: preparation_settled_def)
qed

lemma bulk_run_exact:
  assumes d: "distinct (map fst allSnapshots)" and e: "exact_sizes k allSnapshots"
  shows "exact_inv (bulk_run allSnapshots events)"
proof -
  have "exact_inv (foldl (\<lambda>s i. preparation_settled allSnapshots i s) s events)"
    if "prefetch_inv allSnapshots s" "exact_inv s" for s
    using that
  proof (induction events arbitrary: s)
    case Nil
    then show ?case by simp
  next
    case (Cons ev evs)
    show ?case
      using Cons.IH[OF preparation_settled_inv[OF d Cons.prems(1)]
          preparation_settled_exact[OF d e Cons.prems]]
      by simp
  qed
  moreover have "exact_inv prefetch_init"
    by (simp add: exact_inv_def prefetch_init_def exact_total_def)
  ultimately show ?thesis
    using schedulePrefetch_inv[OF d prefetch_inv_init]
      schedulePrefetch_exact[OF d e prefetch_inv_init]
    by (simp add: bulk_run_def)
qed


subsection \<open>Concrete runs\<close>

lemmas prefetch_eval = bulk_run_def schedulePrefetch.simps startPreparation_def
  preparation_settled_def prefetch_init_def map_set_def map_delete_def
  PREFETCH_SIZE_LIMIT_MB_def double_sub_def to_double_numeral to_double_zero ascii_def Let_def

lemma test_run:
  "bulk_run test_snapshots [0, 0]
     = \<lparr>nextToSchedule = 3, inFlightMb = Finite 30,
        activePreparations = [(ascii ''c'', Finite 30)],
        in_flight = [(ascii ''c'', Finite 30)],
        starts = [((ascii ''a'', Finite 10), [(ascii ''a'', Finite 10)], Finite 0),
          ((ascii ''b'', Finite 10), [(ascii ''a'', Finite 10), (ascii ''b'', Finite 10)],
           Finite 10),
          ((ascii ''c'', Finite 30), [(ascii ''c'', Finite 30)], Finite 0)]\<rparr>"
  by (simp add: test_snapshots_def prefetch_eval)

lemma duplicate_run:
  "bulk_run duplicate_snapshots [0]
     = \<lparr>nextToSchedule = 3, inFlightMb = Finite 40,
        activePreparations = [(ascii ''c'', Finite 30)],
        in_flight = [(ascii ''a'', Finite 10), (ascii ''c'', Finite 30)],
        starts = [((ascii ''a'', Finite 10), [(ascii ''a'', Finite 10)], Finite 0),
          ((ascii ''a'', Finite 10), [(ascii ''a'', Finite 10), (ascii ''a'', Finite 10)],
           Finite 10),
          ((ascii ''c'', Finite 30), [(ascii ''a'', Finite 10), (ascii ''c'', Finite 30)],
           Finite 10)]\<rparr>"
  by (simp add: duplicate_snapshots_def prefetch_eval)

lemma rounding_run:
  "bulk_run rounding_snapshots []
     = \<lparr>nextToSchedule = 2, inFlightMb = Finite 25,
        activePreparations = [(ascii ''a'', Finite 20), (ascii ''b'', Finite (5 + 1 / 2 ^ 50))],
        in_flight = [(ascii ''a'', Finite 20), (ascii ''b'', Finite (5 + 1 / 2 ^ 50))],
        starts = [((ascii ''a'', Finite 20), [(ascii ''a'', Finite 20)], Finite 0),
          ((ascii ''b'', Finite (5 + 1 / 2 ^ 50)),
           [(ascii ''a'', Finite 20), (ascii ''b'', Finite (5 + 1 / 2 ^ 50))], Finite 20)]\<rparr>"
  by (simp add: rounding_snapshots_def prefetch_eval rounded_25[simplified])

subsection \<open>The budget\<close>

text \<open>
  Claim C9, as stated, fails on a list in which a snapshot id occurs twice. With the
  snapshots \<open>a\<close> (10 MB), \<open>a\<close> again (10 MB) and \<open>c\<close> (30 MB), both preparations of
  \<open>a\<close> start; when the first settles, its \<^verbatim>\<open>finally\<close> handler deletes the key \<open>a\<close> from
  \<^verbatim>\<open>activePreparations\<close>, the map is empty while the second is still in flight, and \<open>c\<close>
  is started: 40 MB are in flight, and \<open>c\<close> is not alone.
\<close>

theorem duplicate_ids_exceed_budget:
  "starts (bulk_run duplicate_snapshots [0]) ! 2
     = ((ascii ''c'', Finite 30), [(ascii ''a'', Finite 10), (ascii ''c'', Finite 30)], Finite 10)
   \<and> exact_total [(ascii ''a'', Finite 10), (ascii ''c'', Finite 30)] = 40
   \<and> \<not> sizes_within_budget (starts (bulk_run duplicate_snapshots [0]) ! 2)"
  by (simp add: duplicate_run sizes_within_budget_def exact_total_def mb_value_def)

text \<open>
  It fails as well, with distinct ids, when the sum that the scheduler computes is
  rounded. With the sizes 20 and 5.000000000000001 (the double \<open>5 + 2\<^sup>-\<^sup>5\<^sup>0\<close>), the sum
  \<^verbatim>\<open>inFlightMb + sizeMb\<close> is the double 25, the test \<^verbatim>\<open><= 25\<close> holds and the second
  preparation is started beside the first, while the two sizes sum to more than 25.
\<close>

theorem rounded_sum_exceeds_budget:
  "distinct (map fst rounding_snapshots)
   \<and> starts (bulk_run rounding_snapshots []) ! 1
       = ((ascii ''b'', Finite (5 + 1 / 2 ^ 50)),
          [(ascii ''a'', Finite 20), (ascii ''b'', Finite (5 + 1 / 2 ^ 50))], Finite 20)
   \<and> double_add (Finite 20) (Finite (5 + 1 / 2 ^ 50)) = Finite 25
   \<and> exact_total [(ascii ''a'', Finite 20), (ascii ''b'', Finite (5 + 1 / 2 ^ 50))]
       = 25 + 1 / 2 ^ 50
   \<and> \<not> sizes_within_budget (starts (bulk_run rounding_snapshots []) ! 1)"
proof -
  have "distinct (map fst rounding_snapshots)"
    by (simp add: rounding_snapshots_def ascii_def)
  moreover have "double_add (Finite 20) (Finite (5 + 1 / 2 ^ 50)) = Finite 25"
    using rounded_25 by simp
  ultimately show ?thesis
    by (simp add: rounding_run sizes_within_budget_def exact_total_def mb_value_def)
qed

text \<open>
  Claim C9, amended. In a bulk run over snapshots with pairwise distinct ids, whenever a
  preparation is started, either the counter \<^verbatim>\<open>inFlightMb\<close> plus the new size, added as
  doubles, is at most 25, or the new one is the only one in flight; and while snapshots
  are left to schedule, at least one preparation is in flight: one is always started
  when none is, whatever its size. When the sizes are multiples of \<open>2\<^sup>-\<^sup>k\<close> MB whose total
  is less than \<open>2\<^sup>5\<^sup>3\<^sup>-\<^sup>k\<close> (whole numbers of MB, for \<open>k = 0\<close>), no sum is rounded: the
  counter is the sum of the sizes in flight, and at every start the sizes of all
  preparations in flight, the new one included, sum to at most 25 MB, or the new one is
  the only one in flight.
\<close>

theorem prefetch_within_budget:
  assumes "distinct (map fst allSnapshots)"
  shows "list_all start_within_budget (starts (bulk_run allSnapshots events))
       \<and> (nextToSchedule (bulk_run allSnapshots events) < length allSnapshots
            \<longrightarrow> in_flight (bulk_run allSnapshots events) \<noteq> [])
       \<and> (exact_sizes k allSnapshots
            \<longrightarrow> list_all sizes_within_budget (starts (bulk_run allSnapshots events))
              \<and> inFlightMb (bulk_run allSnapshots events)
                  = Finite (exact_total (in_flight (bulk_run allSnapshots events))))"
  using bulk_run_inv[OF assms, of events] bulk_run_progress[of allSnapshots events]
    bulk_run_exact[OF assms, of k events]
  by (auto simp: prefetch_inv_def exact_inv_def)

theorem prefetch_within_budget_witness:
  "distinct (map fst test_snapshots) \<and> exact_sizes 0 test_snapshots
   \<and> starts (bulk_run test_snapshots [0, 0])
       = [((ascii ''a'', Finite 10), [(ascii ''a'', Finite 10)], Finite 0),
          ((ascii ''b'', Finite 10), [(ascii ''a'', Finite 10), (ascii ''b'', Finite 10)],
           Finite 10),
          ((ascii ''c'', Finite 30), [(ascii ''c'', Finite 30)], Finite 0)]
   \<and> list_all start_within_budget (starts (bulk_run test_snapshots [0, 0]))
   \<and> list_all sizes_within_budget (starts (bulk_run test_snapshots [0, 0]))
   \<and> inFlightMb (bulk_run test_snapshots [0, 0]) = Finite 30"
proof -
  have d: "distinct (map fst test_snapshots)"
    by (simp add: test_snapshots_def ascii_def)
  have e: "exact_sizes 0 test_snapshots"
    by (simp add: exact_sizes_def test_snapshots_def dyadic_def mb_value_def exact_total_def)
  have s: "starts (bulk_run test_snapshots [0, 0])
       = [((ascii ''a'', Finite 10), [(ascii ''a'', Finite 10)], Finite 0),
          ((ascii ''b'', Finite 10), [(ascii ''a'', Finite 10), (ascii ''b'', Finite 10)],
           Finite 10),
          ((ascii ''c'', Finite 30), [(ascii ''c'', Finite 30)], Finite 0)]"
    by (simp add: test_run)
  have c: "inFlightMb (bulk_run test_snapshots [0, 0]) = Finite 30"
    by (simp add: test_run)
  from prefetch_within_budget[OF d, of "[0, 0]" 0] e
  have "list_all start_within_budget (starts (bulk_run test_snapshots [0, 0]))"
    and "list_all sizes_within_budget (starts (bulk_run test_snapshots [0, 0]))"
    by blast+
  with d e s c show ?thesis by blast
qed
section \<open>Text decoding\<close>

lemma utf8_length:
  "length (utf8_decode needed cp lower upper bs) \<le> length bs + (if needed = 0 then 0 else 1)"
proof (induction needed cp lower upper bs rule: utf8_decode.induct)
  case (1 needed cp lower upper)
  then show ?case by simp
next
  case (2 needed cp lower upper b bs)
  show ?case
    by (subst utf8_decode.simps(2)) (use 2 in \<open>auto split: if_splits\<close>)
qed

lemma mod64_block: "0x80 \<le> (x::nat) \<Longrightarrow> x \<le> 0xBF \<Longrightarrow> x mod 64 = x - 128"
proof -
  assume a: "0x80 \<le> x" "x \<le> 0xBF"
  have "x div 64 = 2" using a by simp
  then show ?thesis using div_mult_mod_eq[of x 64] by simp
qed

text \<open>While a sequence is pending, what comes out next is U+FFFD or the finished code
  point, and both are outside ASCII.\<close>

lemma utf8_pending_head:
  assumes "needed \<noteq> 0" "0x80 \<le> lower" "upper \<le> 0xBF"
    and "0x80 \<le> (cp * 64 + lower mod 64) * 64 ^ (needed - 1)"
  shows "\<exists>c cs. utf8_decode needed cp lower upper bs = c # cs \<and> 0x80 \<le> c"
  using assms
proof (induction bs arbitrary: needed cp lower upper)
  case Nil
  then show ?case by simp
next
  case (Cons b bs)
  show ?case
  proof (cases "b < lower \<or> upper < b")
    case True
    then show ?thesis using Cons.prems(1) by (subst utf8_decode.simps(2)) simp
  next
    case False
    then have b: "lower \<le> b" "b \<le> upper" by simp_all
    have "lower mod 64 = lower - 128" "b mod 64 = b - 128"
      using b Cons.prems(2,3) by (simp_all add: mod64_block)
    then have m: "lower mod 64 \<le> b mod 64"
      using b by simp
    have le: "cp * 64 + lower mod 64 \<le> cp * 64 + b mod 64" using m by simp
    show ?thesis
    proof (cases "needed = 1")
      case True
      then have "0x80 \<le> cp * 64 + b mod 64" using Cons.prems(4) le by simp
      then show ?thesis
        using True False by (subst utf8_decode.simps(2)) simp
    next
      case n1: False
      then obtain k where k: "needed = Suc (Suc k)" using Cons.prems(1)
        by (cases needed; cases "needed - 1") auto
      have "(cp * 64 + lower mod 64) * 64 ^ (needed - 1)
             \<le> (cp * 64 + b mod 64) * 64 ^ (needed - 1)"
        using le by (rule mult_le_mono1)
      then have "0x80 \<le> (cp * 64 + b mod 64) * 64 ^ (needed - 1)"
        using Cons.prems(4) by linarith
      moreover have "((cp * 64 + b mod 64) * 64 + 0x80 mod 64) * 64 ^ (needed - 1 - 1)
           = (cp * 64 + b mod 64) * 64 ^ (needed - 1)"
        by (simp add: k)
      ultimately have "0x80 \<le> ((cp * 64 + b mod 64) * 64 + 0x80 mod 64) * 64 ^ (needed - 1 - 1)"
        by (simp only:)
      from Cons.IH[of "needed - 1" "0x80" "0xBF" "cp * 64 + b mod 64", OF _ _ _ this]
      obtain c cs where "utf8_decode (needed - 1) (cp * 64 + b mod 64) 0x80 0xBF bs = c # cs"
          "0x80 \<le> c"
        using k by auto
      then show ?thesis
        using n1 False Cons.prems(1)
        by (subst utf8_decode.simps(2)) simp
    qed
  qed
qed

lemma div_mod_small:
  fixes b :: nat
  shows "lo \<le> b \<Longrightarrow> b < lo + m \<Longrightarrow> m dvd lo \<Longrightarrow> b mod m = b - lo"
proof -
  assume a: "lo \<le> b" "b < lo + m" "m dvd lo"
  then obtain y where y: "b = lo + y" "y < m" by (metis le_Suc_ex nat_add_left_cancel_less)
  have "(lo + y) mod m = (lo mod m + y) mod m" by (simp add: mod_add_left_eq)
  also have "\<dots> = y" using a(3) y(2) by (simp add: dvd_eq_mod_eq_0)
  finally show ?thesis using y by simp
qed

lemma utf8_non_ascii_head:
  assumes "\<not> b \<le> 0x7F"
  shows "\<exists>c cs. utf8_decode 0 0 0x80 0xBF (b # bs) = c # cs \<and> 0x80 \<le> c"
proof -
  consider (two) "0xC2 \<le> b \<and> b \<le> 0xDF"
    | (three) "0xE0 \<le> b \<and> b \<le> 0xEF"
    | (four) "0xF0 \<le> b \<and> b \<le> 0xF4"
    | (bad) "\<not> (0xC2 \<le> b \<and> b \<le> 0xDF) \<and> \<not> (0xE0 \<le> b \<and> b \<le> 0xEF) \<and> \<not> (0xF0 \<le> b \<and> b \<le> 0xF4)"
    by blast
  then show ?thesis
  proof cases
    case two
    have "b mod 32 = b - 192"
      using two by (intro div_mod_small) simp_all
    then have "2 \<le> b mod 32" using two by arith
    then have "0x80 \<le> (b mod 32 * 64 + 0x80 mod 64) * 64 ^ (1 - 1)" by simp
    from utf8_pending_head[of 1 "0x80" "0xBF" "b mod 32" bs, OF _ _ _ this]
    show ?thesis using two assms by (subst utf8_decode.simps(2)) simp
  next
    case three
    let ?lo = "if b = 0xE0 then 0xA0 else (0x80::nat)"
    let ?hi = "if b = 0xED then 0x9F else (0xBF::nat)"
    have "b mod 16 = b - 224"
      using three by (intro div_mod_small) simp_all
    then have "b \<noteq> 0xE0 \<Longrightarrow> 1 \<le> b mod 16" using three by arith
    then have "0x80 \<le> (b mod 16 * 64 + ?lo mod 64) * 64 ^ (2 - 1)" by auto
    moreover have "0x80 \<le> ?lo" "?hi \<le> 0xBF" by simp_all
    ultimately obtain c cs where "utf8_decode 2 (b mod 16) ?lo ?hi bs = c # cs" "0x80 \<le> c"
      using utf8_pending_head[of 2 ?lo ?hi "b mod 16" bs] by auto
    moreover have "utf8_decode 0 0 0x80 0xBF (b # bs) = utf8_decode 2 (b mod 16) ?lo ?hi bs"
      using three by (subst utf8_decode.simps(2)) simp
    ultimately show ?thesis by simp
  next
    case four
    let ?lo = "if b = 0xF0 then 0x90 else (0x80::nat)"
    let ?hi = "if b = 0xF4 then 0x8F else (0xBF::nat)"
    have "b mod 8 = b - 240"
      using four by (intro div_mod_small) simp_all
    then have "b \<noteq> 0xF0 \<Longrightarrow> 1 \<le> b mod 8" using four by arith
    then have "0x80 \<le> (b mod 8 * 64 + ?lo mod 64) * 64 ^ (3 - 1)" by auto
    moreover have "0x80 \<le> ?lo" "?hi \<le> 0xBF" by simp_all
    ultimately obtain c cs where "utf8_decode 3 (b mod 8) ?lo ?hi bs = c # cs" "0x80 \<le> c"
      using utf8_pending_head[of 3 ?lo ?hi "b mod 8" bs] by auto
    moreover have "utf8_decode 0 0 0x80 0xBF (b # bs) = utf8_decode 3 (b mod 8) ?lo ?hi bs"
      using four by (subst utf8_decode.simps(2)) simp
    ultimately show ?thesis by simp
  next
    case bad
    then have n: "(0xC2 \<le> b \<and> b \<le> 0xDF) = False" "(0xE0 \<le> b \<and> b \<le> 0xEF) = False"
        "(0xF0 \<le> b \<and> b \<le> 0xF4) = False"
      by simp_all
    have "utf8_decode 0 0 0x80 0xBF (b # bs) = 0xFFFD # utf8_decode 0 0 0x80 0xBF bs"
      by (subst utf8_decode.simps(2)) (simp only: n assms if_False if_True refl)
    then show ?thesis by simp
  qed
qed

lemma utf8_ascii_only:
  assumes "utf8_decode 0 0 0x80 0xBF bs = as" "\<forall>a \<in> set as. a < 0x80"
  shows "bs = as"
  using assms
proof (induction bs arbitrary: as)
  case Nil
  then show ?case by simp
next
  case (Cons b bs)
  show ?case
  proof (cases "b \<le> 0x7F")
    case True
    then have "utf8_decode 0 0 0x80 0xBF (b # bs) = b # utf8_decode 0 0 0x80 0xBF bs"
      by (subst utf8_decode.simps(2)) simp
    then show ?thesis using Cons by auto
  next
    case False
    from utf8_non_ascii_head[OF False, of bs] Cons.prems
    show ?thesis by fastforce
  qed
qed

lemma unat_of_nat16: "n < 65536 \<Longrightarrow> unat (word_of_nat n :: 16 word) = n"
  by (simp add: unat_of_nat)

text \<open>Code points stay below \<open>2 ^ 21\<close>.\<close>

lemma utf8_bound:
  assumes "needed \<noteq> 0 \<longrightarrow> (cp + 1) * 64 ^ needed \<le> 2 ^ 21" "\<forall>b \<in> set bs. b < 256"
  shows "\<forall>c \<in> set (utf8_decode needed cp lower upper bs). c < 2 ^ 21"
  using assms
proof (induction needed cp lower upper bs rule: utf8_decode.induct)
  case (1 needed cp lower upper)
  then show ?case by simp
next
  case (2 needed cp lower upper b bs)
  have bs: "\<forall>b \<in> set bs. b < 256" "b < 256" using "2.prems"(2) by simp_all
  have start: "\<forall>c \<in> set (utf8_decode 0 0 0x80 0xBF xs). c < 2 ^ 21"
    if "\<forall>c \<in> set (utf8_decode 0 0 0x80 0xBF xs). c < 2 ^ 21" for xs
    using that .
  show ?case
  proof (cases "needed = 0")
    case True
    have m: "(b mod 32 + 1) * 64 ^ 1 \<le> 2 ^ 21" "(b mod 16 + 1) * 64 ^ 2 \<le> 2 ^ 21"
         "(b mod 8 + 1) * 64 ^ 3 \<le> 2 ^ 21"
    proof -
      have "b mod 32 < 32" "b mod 16 < 16" "b mod 8 < 8" by simp_all
      then have "b mod 32 + 1 \<le> 32" "b mod 16 + 1 \<le> 16" "b mod 8 + 1 \<le> 8" by simp_all
      then have "(b mod 32 + 1) * 64 ^ 1 \<le> 32 * 64 ^ 1" "(b mod 16 + 1) * 64 ^ 2 \<le> 16 * 64 ^ 2"
         "(b mod 8 + 1) * 64 ^ 3 \<le> 8 * 64 ^ 3"
        by (simp_all only: mult_le_mono1)
      then show "(b mod 32 + 1) * 64 ^ 1 \<le> 2 ^ 21" "(b mod 16 + 1) * 64 ^ 2 \<le> 2 ^ 21"
         "(b mod 8 + 1) * 64 ^ 3 \<le> 2 ^ 21"
        by simp_all
    qed
    show ?thesis
      using True bs m "2.IH"(1-5)
      by (subst utf8_decode.simps(2)) (auto simp del: power.simps)
  next
    case False
    show ?thesis
    proof (cases "b < lower \<or> upper < b")
      case True
      then show ?thesis
        using False "2.IH"(6) "2.prems"(2)
        by (subst utf8_decode.simps(2)) auto
    next
      case inr: False
      have "b mod 64 < 64" by simp
      then have "cp * 64 + b mod 64 + 1 \<le> (cp + 1) * 64" by simp
      then have step: "(cp * 64 + b mod 64 + 1) * 64 ^ (needed - 1) \<le> (cp + 1) * 64 ^ needed"
        using False
        by (metis (no_types, lifting) mult.assoc mult_le_mono1 power_eq_if)
      then have le: "(cp * 64 + b mod 64 + 1) * 64 ^ (needed - 1) \<le> 2 ^ 21"
        using "2.prems"(1) False by simp
      show ?thesis
      proof (cases "needed = 1")
        case True
        then have "cp * 64 + b mod 64 < 2 ^ 21" using le by simp
        then show ?thesis
          using True inr "2.IH"(7) bs
          by (subst utf8_decode.simps(2)) auto
      next
        case n: False
        then show ?thesis
          using False inr "2.IH"(8) bs le
          by (subst utf8_decode.simps(2)) auto
      qed
    qed
  qed
qed

lemma utf16_units_ascii:
  assumes "c < 2 ^ 21" "u \<in> set (utf16_units c)" "unat u < 0x80"
  shows "c < 0x80 \<and> utf16_units c = [word_of_nat c]"
proof (cases "c < 0x10000")
  case True
  then have "unat (word_of_nat c :: 16 word) = c"
    by (simp add: unat_of_nat16)
  then show ?thesis using assms True by (auto simp: utf16_units_def)
next
  case False
  have d: "(c - 0x10000) div 1024 < 2048" using assms(1) by simp
  have "0xD800 + (c - 0x10000) div 1024 < 65536" using d by simp
  then have "unat (word_of_nat (0xD800 + (c - 0x10000) div 1024) :: 16 word)
          = 0xD800 + (c - 0x10000) div 1024"
    by (rule unat_of_nat16)
  moreover have "unat (word_of_nat (0xDC00 + (c - 0x10000) mod 1024) :: 16 word)
          = 0xDC00 + (c - 0x10000) mod 1024"
  proof -
    have "(c - 0x10000) mod 1024 < 1024" by simp
    then have "0xDC00 + (c - 0x10000) mod 1024 < 65536" by simp
    then show ?thesis by (rule unat_of_nat16)
  qed
  ultimately show ?thesis
    using assms False by (auto simp: utf16_units_def)
qed

lemma utf16_ascii_only:
  assumes "concat (map utf16_units cps) = us" "\<forall>c \<in> set cps. c < 2 ^ 21"
    and "\<forall>u \<in> set us. unat u < 0x80"
  shows "cps = map unat us"
  using assms
proof (induction cps arbitrary: us)
  case Nil
  then show ?case by simp
next
  case (Cons c cps)
  have ne: "utf16_units c \<noteq> []" by (simp add: utf16_units_def)
  then obtain u where u: "u \<in> set (utf16_units c)" by (cases "utf16_units c") auto
  then have "u \<in> set us" using Cons.prems(1) by auto
  then have "unat u < 0x80" using Cons.prems(3) by simp
  from utf16_units_ascii[OF _ u this] Cons.prems(2)
  have c: "c < 0x80" "utf16_units c = [word_of_nat c]" by simp_all
  have "unat (word_of_nat c :: 16 word) = c" using c(1) by (simp add: unat_of_nat16)
  moreover obtain us' where us': "us = word_of_nat c # us'" "concat (map utf16_units cps) = us'"
    using Cons.prems(1) c(2) by auto
  moreover have "cps = map unat us'"
    using Cons.IH[OF us'(2)] Cons.prems(2,3) us'(1) by simp
  ultimately show ?case by simp
qed

lemma set_strip_bom: "set (strip_bom xs) \<subseteq> set xs"
  by (cases xs) (auto simp: strip_bom_def)

text \<open>The magic check compares the decoded text of the first four bytes with
  \<^verbatim>\<open>'OSNP'\<close>: that is the same as comparing the bytes.\<close>

lemma magic_text: "text_decode OSNP_MAGIC = ascii ''OSNP''"
  by (simp add: text_decode_def OSNP_MAGIC_def utf8_decode.simps strip_bom_def utf16_units_def
        ascii_def)

lemma magic_bytes:
  assumes "length bytes = 4" "text_decode bytes = ascii ''OSNP''"
  shows "bytes = OSNP_MAGIC"
proof -
  let ?raw = "utf8_decode 0 0 0x80 0xBF (map unat bytes)"
  have b: "\<forall>b \<in> set (map unat bytes). b < 256"
    using unsigned_less[where 'b = 8 and 'a = nat] by auto
  have bound: "\<forall>c \<in> set ?raw. c < 2 ^ 21"
    using utf8_bound[OF _ b, of 0] by simp
  have len: "length ?raw \<le> 4"
    using utf8_length[of 0 0 "0x80" "0xBF" "map unat bytes"] assms(1) by simp
  have sb: "set (strip_bom ?raw) \<subseteq> set ?raw"
    by (rule set_strip_bom)
  have target: "ascii ''OSNP'' = [0x4F, 0x53, 0x4E, 0x50]"
    by (simp add: ascii_def)
  have "strip_bom ?raw = map unat (ascii ''OSNP'')"
    using utf16_ascii_only[of "strip_bom ?raw" "ascii ''OSNP''"] assms(2) bound sb
    by (auto simp: text_decode_def target)
  then have s: "strip_bom ?raw = [0x4F, 0x53, 0x4E, 0x50]"
    by (simp add: target)
  have "?raw = [0x4F, 0x53, 0x4E, 0x50]"
  proof (cases ?raw)
    case Nil
    then show ?thesis using s by (simp add: strip_bom_def)
  next
    case (Cons c cs)
    show ?thesis
    proof (cases "c = 0xFEFF")
      case True
      then have "cs = [0x4F, 0x53, 0x4E, 0x50]" using s Cons by (simp add: strip_bom_def)
      then show ?thesis using len Cons by simp
    next
      case False
      then show ?thesis using s Cons by (simp add: strip_bom_def)
    qed
  qed
  then have "map unat bytes = [0x4F, 0x53, 0x4E, 0x50]"
    using utf8_ascii_only[of "map unat bytes" "[0x4F, 0x53, 0x4E, 0x50]"] by simp
  then have "map unat bytes = map unat OSNP_MAGIC"
    by (simp add: OSNP_MAGIC_def)
  moreover have "inj (unat :: byte \<Rightarrow> nat)"
    by (rule injI) (simp add: word_unat_eq_iff)
  ultimately show ?thesis
    by (rule map_injective)
qed


section \<open>The binary decoder\<close>

lemmas text_eval = text_decode_def utf8_decode.simps strip_bom_def utf16_units_def ascii_def
lemmas slice_eval = js_slice_def js_rel_index_def slice_at_def index_add_def index_int_def
text \<open>The loops at a count written as a numeral.\<close>

lemma decode_loops_numeral:
  "decode_array pf stack buffer (numeral c) offset arr =
     (case decodeMsgpack pf stack buffer offset of
        Inl e \<Rightarrow> Inl e
      | Inr (v, offset') \<Rightarrow> decode_array pf stack buffer (pred_numeral c) offset' (arr @ [v]))"
  "decode_map pf stack buffer (numeral c) offset obj =
     (case decodeMsgpack pf stack buffer offset of
        Inl e \<Rightarrow> Inl e
      | Inr (key, offset') \<Rightarrow>
          (case decodeMsgpack pf stack buffer offset' of
             Inl e \<Rightarrow> Inl e
           | Inr (val, offset'') \<Rightarrow>
               (case obj_set pf obj key val of
                  Inl e \<Rightarrow> Inl e
                | Inr obj' \<Rightarrow> decode_map pf stack buffer (pred_numeral c) offset'' obj')))"
  by (simp_all add: numeral_eq_Suc)

lemmas decode_eval = decodeMsgpack.simps(2) decode_loops_numeral byte_at_def readBin_def
  readStr_def to_int32_def ext_value_def
lemmas platform_eval = test_platform_def plain_get_def plain_set_def plain_entries_def

lemma unknown_tag_message:
  "unsupported_message (Some 0xc1) (Idx k) =
     ascii ''Unsupported msgpack type 0xc1 at offset '' @ ascii (index_string (Idx k))"
  by (simp add: unsupported_message_def hex_string.simps hex_digit_def ascii_def)

lemma index_string_small: "index_string (Idx 2) = ''2''" "index_string (Idx 8) = ''8''"
  by (simp_all add: index_string_def dec_string.simps hex_digit_def)

text \<open>The tag \<^verbatim>\<open>0xc1\<close>, which the format never uses, has no branch.\<close>

lemma tag_c1_undefined: "\<not> tag_defined 0xc1"
  by (simp add: tag_defined_def)

text \<open>The error does not depend on what follows the tag: inside an array or a map, at
  any depth, the enclosing calls do not catch it, and what they had decoded is lost.\<close>

lemma nested_unknown_tag:
  "decodeMsgpack test_platform (Suc (Suc 0)) [0x92, 0x01, 0xc1] (Idx 0)
     = Inl (Error (ascii ''Unsupported msgpack type 0xc1 at offset 2''))"
  by (simp add: decode_eval unknown_tag_message index_string_small ascii_def)

text \<open>
  C8. For every buffer and every offset, if the byte at the offset is a tag that the
  decoder has no branch for, then \<open>decodeMsgpack\<close> (with room on the call stack) throws
  the error whose message is \<^verbatim>\<open>Unsupported msgpack type 0x\<close>, the tag in hexadecimal,
  \<^verbatim>\<open> at offset \<close> and the offset in decimal. It returns no value; and when the tag is
  where the next element of an array or the next key of a map starts, the loop over the
  elements throws the same error, and the elements decoded before are not returned.
\<close>

theorem unknown_tag_hard_error:
  assumes "byte_at buffer k = Some t" and "\<not> tag_defined t"
  shows "decodeMsgpack pf (Suc stack) buffer (Idx k)
           = Inl (Error (ascii (''Unsupported msgpack type 0x'' @ hex_string (unat t)
                                @ '' at offset '' @ index_string (Idx k))))
       \<and> decode_array pf (Suc stack) buffer (Suc n) (Idx k) arr
           = Inl (Error (unsupported_message (Some t) (Idx k)))
       \<and> decode_map pf (Suc stack) buffer (Suc n) (Idx k) obj
           = Inl (Error (unsupported_message (Some t) (Idx k)))"
proof -
  have "decodeMsgpack pf (Suc stack) buffer (Idx k)
          = Inl (Error (unsupported_message (Some t) (Idx k)))"
    using assms by (simp add: decodeMsgpack.simps tag_defined_def)
  thus ?thesis by (simp add: unsupported_message_def)
qed

theorem unknown_tag_hard_error_witness:
  "byte_at [0x92, 0x01, 0xc1] 2 = Some 0xc1 \<and> \<not> tag_defined 0xc1
   \<and> decodeMsgpack test_platform (Suc 0) [0x92, 0x01, 0xc1] (Idx 2)
       = Inl (Error (ascii ''Unsupported msgpack type 0xc1 at offset 2''))
   \<and> decode_array test_platform (Suc 0) [0x92, 0x01, 0xc1] (Suc 0) (Idx 2) [JNum (NInt 1)]
       = Inl (Error (ascii ''Unsupported msgpack type 0xc1 at offset 2''))
   \<and> decode_map test_platform (Suc 0) [0x92, 0x01, 0xc1] (Suc 0) (Idx 2) (JObj [] ObjectPrototype)
       = Inl (Error (ascii ''Unsupported msgpack type 0xc1 at offset 2''))"
proof -
  have h1: "byte_at [0x92, 0x01, 0xc1] 2 = Some 0xc1" by (simp add: byte_at_def)
  have h2: "\<not> tag_defined 0xc1" by (rule tag_c1_undefined)
  have m: "unsupported_message (Some 0xc1) (Idx 2)
             = ascii ''Unsupported msgpack type 0xc1 at offset 2''"
    by (simp add: unknown_tag_message index_string_small ascii_def)
  have m': "ascii (''Unsupported msgpack type 0x'' @ hex_string (unat (0xc1 :: byte))
                   @ '' at offset '' @ index_string (Idx 2))
             = ascii ''Unsupported msgpack type 0xc1 at offset 2''"
    using m by (simp add: unsupported_message_def)
  show ?thesis
    using unknown_tag_hard_error[OF h1 h2, of test_platform 0 0 "[JNum (NInt 1)]"
        "JObj [] ObjectPrototype"] h1 h2
    by (simp only: m m') simp
qed

section \<open>The OSNP container\<close>

lemmas file_eval = osnp_file_def plain_header_def gzip_header_def ascii_bytes_def OSNP_MAGIC_def
lemmas io_eval = io_bind_def io_call_def io_return_def io_throw_def io_result_def

subsection \<open>A big-endian number of four bytes\<close>

lemma or_low_int:
  fixes x y :: int
  assumes "0 \<le> y" "y < 2 ^ n"
  shows "push_bit n x OR y = push_bit n x + y"
proof -
  have y: "take_bit n y = y" using assms by (simp add: take_bit_int_eq_self)
  have "push_bit n x + y = push_bit n x OR y"
  proof (rule disjunctive_add)
    fix m show "\<not> bit (push_bit n x) m \<or> \<not> bit y m"
      using bit_take_bit_iff[of n y m] y by (auto simp: bit_push_bit_iff)
  qed
  thus ?thesis by simp
qed

lemma uint_byte_bound: "0 \<le> uint (b::byte) \<and> uint b < 256"
  using unsigned_less[where 'b = 8 and 'a = int, of b] by simp

lemma uint_push_byte:
  "n \<le> 24 \<Longrightarrow> uint (push_bit n (ucast (b::byte) :: 32 word)) = push_bit n (uint b)"
proof -
  assume n: "n \<le> 24"
  have "uint (push_bit n (ucast b :: 32 word)) = take_bit 32 (push_bit n (uint b))"
  proof -
    have "take_bit 32 (uint b) = uint b"
      using uint_byte_bound[of b] by (intro take_bit_int_eq_self) auto
    thus ?thesis by (simp add: unsigned_push_bit_eq unsigned_ucast_eq)
  qed
  also have "\<dots> = push_bit n (take_bit (32 - n) (uint b))"
    by (simp add: take_bit_push_bit)
  also have "take_bit (32 - n) (uint b) = uint b"
  proof (rule take_bit_int_eq_self)
    show "0 \<le> uint b" by simp
    have "(256::int) = 2 ^ 8" by simp
    also have "\<dots> \<le> 2 ^ (32 - n)" using n by (intro power_increasing) auto
    finally show "uint b < 2 ^ (32 - n)" using uint_byte_bound[of b] by linarith
  qed
  finally show ?thesis .
qed

lemma be32_value:
  fixes b0 b1 b2 b3 :: byte
  shows "uint (push_bit 24 (ucast b0 :: 32 word) OR push_bit 16 (ucast b1)
               OR push_bit 8 (ucast b2) OR ucast b3)
         = 2 ^ 24 * uint b0 + 2 ^ 16 * uint b1 + 2 ^ 8 * uint b2 + uint b3"
proof -
  have u0: "uint (ucast b3 :: 32 word) = uint b3"
    using uint_push_byte[of 0 b3] by simp
  have s1: "push_bit 8 (uint b2) OR uint b3 = push_bit 8 (uint b2) + uint b3"
    using uint_byte_bound[of b3] by (intro or_low_int) auto
  have b1: "0 \<le> push_bit 8 (uint b2) + uint b3 \<and> push_bit 8 (uint b2) + uint b3 < 2 ^ 16"
    using uint_byte_bound[of b3] uint_byte_bound[of b2] by (simp add: push_bit_eq_mult)
  have s2: "push_bit 16 (uint b1) OR (push_bit 8 (uint b2) + uint b3)
            = push_bit 16 (uint b1) + (push_bit 8 (uint b2) + uint b3)"
    using b1 by (intro or_low_int) auto
  have b2: "0 \<le> push_bit 16 (uint b1) + (push_bit 8 (uint b2) + uint b3)
            \<and> push_bit 16 (uint b1) + (push_bit 8 (uint b2) + uint b3) < 2 ^ 24"
    using uint_byte_bound[of b3] uint_byte_bound[of b2] uint_byte_bound[of b1]
    by (simp add: push_bit_eq_mult)
  have s3: "push_bit 24 (uint b0) OR (push_bit 16 (uint b1) + (push_bit 8 (uint b2) + uint b3))
            = push_bit 24 (uint b0) + (push_bit 16 (uint b1) + (push_bit 8 (uint b2) + uint b3))"
    using b2 by (intro or_low_int) auto
  show ?thesis
    by (simp only: uint_or uint_push_byte u0 s1 s2 s3 le_refl) (simp add: push_bit_eq_mult)
qed

lemma take4_drop:
  assumes "k + 4 \<le> length xs"
  shows "take 4 (drop k xs) = [xs ! k, xs ! (k + 1), xs ! (k + 2), xs ! (k + 3)]"
proof -
  have d: "\<And>i. i < length xs \<Longrightarrow> drop i xs = xs ! i # drop (Suc i) xs"
    by (simp add: Cons_nth_drop_Suc)
  have "drop k xs = xs ! k # xs ! (k + 1) # xs ! (k + 2) # xs ! (k + 3) # drop (k + 4) xs"
    using assms d[of k] d[of "k + 1"] d[of "k + 2"] d[of "k + 3"]
    by (simp add: numeral_eq_Suc)
  thus ?thesis by simp
qed

lemma byte_at_nth:
  "0 \<le> a \<Longrightarrow> nat a + i < length buffer
   \<Longrightarrow> byte_at buffer (a + int i) = Some (buffer ! (nat a + i))"
  by (simp add: byte_at_def nat_add_distrib)

text \<open>\<^verbatim>\<open>getUint32\<close> returns when its four bytes are inside the buffer, and returns the
  big-endian number they are.\<close>

lemma getUint32_big_endian:
  assumes "getUint32 buffer (Idx a) = Inr c"
  shows "0 \<le> a \<and> a + 4 \<le> int (length buffer) \<and> c = big_endian (take 4 (drop (nat a) buffer))"
proof -
  from assms have a: "0 \<le> a" "a + 4 \<le> int (length buffer)" and c: "c = uint (be32 buffer a)"
    by (auto simp: getUint32_def index_int_def Let_def split: if_splits)
  have len: "nat a + 4 \<le> length buffer" using a by linarith
  have b: "byte_at buffer a = Some (buffer ! nat a)"
          "byte_at buffer (a + 1) = Some (buffer ! (nat a + 1))"
          "byte_at buffer (a + 2) = Some (buffer ! (nat a + 2))"
          "byte_at buffer (a + 3) = Some (buffer ! (nat a + 3))"
    using byte_at_nth[of a 0 buffer] byte_at_nth[of a 1 buffer] byte_at_nth[of a 2 buffer]
      byte_at_nth[of a 3 buffer] a len by simp_all
  have "uint (be32 buffer a) = big_endian (take 4 (drop (nat a) buffer))"
    unfolding be32_def b to_int32_def option.case take4_drop[OF len] be32_value
    by (simp add: big_endian_def)
  thus ?thesis using a c by simp
qed

subsection \<open>Buffers that are refused\<close>

lemma read_osnp_Inl:
  "read_osnp pf stack buffer = Inl e \<Longrightarrow> decryptOsnpSnapshot pf stack buffer key = ([], Inl e)"
  by (simp add: decryptOsnpSnapshot_def io_throw_def)

lemma osnp_too_small:
  "length buffer < 32 \<Longrightarrow>
   read_osnp pf stack buffer = Inl (Error (ascii ''Snapshot buffer is too small''))"
  by (simp add: read_osnp_def)

lemma osnp_magic_slice: "32 \<le> length buffer \<Longrightarrow> js_slice buffer 0 4 = take 4 buffer"
  by (simp add: js_slice_nonneg)

lemma osnp_bad_magic:
  assumes "32 \<le> length buffer" "take 4 buffer \<noteq> OSNP_MAGIC"
  shows "read_osnp pf stack buffer = Inl (Error (ascii ''Not an OSNP snapshot''))"
proof -
  have "text_decode (take 4 buffer) \<noteq> ascii ''OSNP''"
    using magic_bytes[of "take 4 buffer"] assms by auto
  thus ?thesis using assms by (simp add: read_osnp_def osnp_magic_slice)
qed

lemma osnp_no_header:
  assumes "32 \<le> length buffer" "take 4 buffer = OSNP_MAGIC"
    and "decodeMsgpack pf stack buffer (Idx 9) = Inl e9"
    and "decodeMsgpack pf stack buffer (Idx 8) = Inl e8"
  shows "read_osnp pf stack buffer = Inl e8"
  using assms by (simp add: read_osnp_def osnp_magic_slice magic_text)

subsection \<open>Buffers that are accepted\<close>

lemma read_osnp_calls:
  assumes "read_osnp pf stack buffer = Inr env"
  shows "\<exists>rest. fst (decryptOsnpSnapshot pf stack buffer key)
           = RsaOaepDecrypt (obj_get pf (header env) (ascii ''wrappedKey'')) # rest"
  using assms
  by (simp add: decryptOsnpSnapshot_def Let_def io_bind_def io_call_def
           split: sum.splits prod.splits)

lemma read_osnp_header:
  assumes "read_osnp pf stack buffer = Inr env"
  shows "32 \<le> length buffer \<and> take 4 buffer = OSNP_MAGIC
     \<and> (decodeMsgpack pf stack buffer (Idx 9) = Inr (header env, afterHeader env)
        \<or> (\<exists>e. decodeMsgpack pf stack buffer (Idx 9) = Inl e)
          \<and> decodeMsgpack pf stack buffer (Idx 8) = Inr (header env, afterHeader env))
     \<and> js_truthy (obj_get pf (header env) (ascii ''wrappedKey''))"
proof -
  from assms have len: "32 \<le> length buffer"
    by (simp add: read_osnp_def split: if_splits)
  from assms len have "text_decode (take 4 buffer) = ascii ''OSNP''"
    by (simp add: read_osnp_def osnp_magic_slice split: if_splits)
  hence m: "take 4 buffer = OSNP_MAGIC" using magic_bytes[of "take 4 buffer"] len by simp
  show ?thesis
    using assms len m
    by (auto simp: read_osnp_def osnp_magic_slice magic_text Let_def
             split: sum.splits if_splits prod.splits)
qed

lemma read_osnp_fields:
  assumes "read_osnp pf stack buffer = Inr env" "afterHeader env = Idx a"
  shows "getUint32 buffer (Idx a) = Inr (cipherLen env)
     \<and> nonce env = js_slice buffer (a + 4) (a + 16)
     \<and> tag env = js_slice buffer (a + 16) (a + 32)
     \<and> ciphertext env = js_slice buffer (a + 32) (a + 32 + cipherLen env)"
  using assms
  by (auto simp: read_osnp_def Let_def slice_at_def index_add_def index_int_def add_ac
           split: sum.splits if_splits prod.splits)

lemma take_drop_split: "drop k xs = take n (drop k xs) @ drop (k + n) xs"
  by (metis append_take_drop_id drop_drop add.commute)

lemma osnp_fields_split:
  "drop k xs = take 4 (drop k xs) @ take 12 (drop (k + 4) xs) @ take 16 (drop (k + 16) xs)
               @ take c (drop (k + 32) xs) @ drop (k + 32 + c) xs"
proof -
  have "drop k xs = take 4 (drop k xs) @ drop (k + 4) xs" by (rule take_drop_split)
  also have "drop (k + 4) xs = take 12 (drop (k + 4) xs) @ drop (k + 16) xs"
    using take_drop_split[of "k + 4" xs 12] by (simp add: add.commute)
  also have "drop (k + 16) xs = take 16 (drop (k + 16) xs) @ drop (k + 32) xs"
    using take_drop_split[of "k + 16" xs 16] by (simp add: add.commute)
  also have "drop (k + 32) xs = take c (drop (k + 32) xs) @ drop (k + 32 + c) xs"
    by (rule take_drop_split)
  finally show ?thesis .
qed

text \<open>When the buffer holds all the bytes that the declared length asks for, the four
  fields are next to each other after the header, with their widths.\<close>

lemma osnp_layout:
  assumes r: "read_osnp pf stack buffer = Inr env" and ah: "afterHeader env = Idx a"
    and long: "a + 32 + cipherLen env \<le> int (length buffer)"
  shows "0 \<le> a \<and> (\<exists>len rest. drop (nat a) buffer = len @ nonce env @ tag env @ ciphertext env @ rest
           \<and> length len = 4 \<and> big_endian len = cipherLen env
           \<and> length (nonce env) = 12 \<and> length (tag env) = 16
           \<and> int (length (ciphertext env)) = cipherLen env)"
proof -
  let ?k = "nat a" and ?c = "nat (cipherLen env)"
  note f = read_osnp_fields[OF r ah]
  from f getUint32_big_endian[of buffer a "cipherLen env"]
  have a: "0 \<le> a" and c: "cipherLen env = big_endian (take 4 (drop ?k buffer))" by auto
  have "cipherLen env = uint (be32 buffer a)"
    using f by (auto simp: getUint32_def index_int_def Let_def split: if_splits)
  hence c0: "0 \<le> cipherLen env" by simp
  have len: "?k + 32 + ?c \<le> length buffer" using long a c0 by linarith
  have n: "nonce env = take 12 (drop (?k + 4) buffer)"
    using f a by (simp add: js_slice_nonneg nat_add_distrib)
  have t: "tag env = take 16 (drop (?k + 16) buffer)"
    using f a by (simp add: js_slice_nonneg nat_add_distrib)
  have ct: "ciphertext env = take ?c (drop (?k + 32) buffer)"
    using f a c0 by (simp add: js_slice_nonneg nat_add_distrib)
  have "drop ?k buffer = take 4 (drop ?k buffer) @ nonce env @ tag env @ ciphertext env
                         @ drop (?k + 32 + ?c) buffer"
    unfolding n t ct by (rule osnp_fields_split)
  moreover have "length (take 4 (drop ?k buffer)) = 4" using len by simp
  moreover have "length (nonce env) = 12" using len by (simp add: n)
  moreover have "length (tag env) = 16" using len by (simp add: t)
  moreover have "int (length (ciphertext env)) = cipherLen env" using len c0 by (simp add: ct)
  ultimately show ?thesis using a c by metis
qed

subsection \<open>Concrete files\<close>

lemma plain_header_decodes:
  "decodeMsgpack test_platform (Suc (Suc 0)) (osnp_file plain_header len ct) (Idx 9)
     = Inr (JObj [(ascii ''wrappedKey'', JBytes [0xAA])] ObjectPrototype, Idx 24)"
  by (simp add: file_eval decode_eval slice_eval text_eval platform_eval)

lemma short_file_read:
  "read_osnp test_platform (Suc (Suc 0)) short_file
     = Inr \<lparr>header = JObj [(ascii ''wrappedKey'', JBytes [0xAA])] ObjectPrototype,
            afterHeader = Idx 24, cipherLen = 100, nonce = replicate 12 0x11,
            tag = replicate 16 0x22, ciphertext = [0xc0]\<rparr>"
  unfolding read_osnp_def short_file_def plain_header_decodes
  by (simp add: file_eval slice_eval text_eval platform_eval js_truthy_def js_is_object_def
        getUint32_def be32_def byte_at_def to_int32_def Let_def)

lemma null_file_read:
  "read_osnp test_platform (Suc (Suc 0)) null_file
     = Inr \<lparr>header = JObj [(ascii ''wrappedKey'', JBytes [0xAA])] ObjectPrototype,
            afterHeader = Idx 24, cipherLen = 1, nonce = replicate 12 0x11,
            tag = replicate 16 0x22, ciphertext = [0xc0]\<rparr>"
  unfolding read_osnp_def null_file_def plain_header_decodes
  by (simp add: file_eval slice_eval text_eval platform_eval js_truthy_def js_is_object_def
        getUint32_def be32_def byte_at_def to_int32_def Let_def)

text \<open>After an accepted header the rest of the function: the three calls, no
  decompression without the field, and the plaintext \<^verbatim>\<open>0xc0\<close> decoded as \<^verbatim>\<open>null\<close>.\<close>

lemma decrypt_plain_null:
  assumes "read_osnp test_platform (Suc (Suc 0)) buffer
     = Inr \<lparr>header = JObj [(ascii ''wrappedKey'', JBytes [0xAA])] ObjectPrototype,
            afterHeader = Idx 24, cipherLen = c, nonce = replicate 12 0x11,
            tag = replicate 16 0x22, ciphertext = [0xc0]\<rparr>"
  shows "decryptOsnpSnapshot test_platform (Suc (Suc 0)) buffer ()
     = ([RsaOaepDecrypt (JBytes [0xAA]), ImportAesKey [0xAA],
         AesGcmDecrypt (replicate 12 0x11) (0xc0 # replicate 16 0x22)], Inr JNull)"
  unfolding decryptOsnpSnapshot_def assms
  by (simp add: io_eval platform_eval parse_json_or_msgpack_def text_eval decode_eval Let_def)

lemma headerless_file_decode:
  "decodeMsgpack test_platform (Suc (Suc 0)) headerless_file (Idx 9)
     = Inl (Error (unsupported_message (Some 0xc1) (Idx 9)))"
  "decodeMsgpack test_platform (Suc (Suc 0)) headerless_file (Idx 8)
     = Inl (Error (ascii ''Unsupported msgpack type 0xc1 at offset 8''))"
  by (simp_all add: headerless_file_def OSNP_MAGIC_def decodeMsgpack.simps(2) byte_at_def
        unknown_tag_message index_string_small ascii_def)

text \<open>
  C3, as the code has it. For every buffer, \<open>decryptOsnpSnapshot\<close> throws without any call
  to the cipher when the buffer has fewer than 32 bytes, when its first four bytes are
  not \<^verbatim>\<open>OSNP\<close>, and when the header decodes neither at offset 9 nor at offset 8 (the
  error is then the one of offset 8). For every buffer that passes these checks and
  the check of the header, the cipher is called; the header is the value decoded at
  offset 9, or at offset 8 when offset 9 fails; and if the buffer holds, after the
  header, 32 bytes and as many more as the declared length, then it has there, in this
  order, four bytes that are the declared length in big-endian order, the nonce of 12
  bytes, the tag of 16 bytes, and the ciphertext of the declared length.
\<close>

theorem osnp_fails_closed_and_layout:
  "(length buffer < 32 \<longrightarrow>
      decryptOsnpSnapshot pf stack buffer key
        = ([], Inl (Error (ascii ''Snapshot buffer is too small''))))
 \<and> (32 \<le> length buffer \<and> take 4 buffer \<noteq> OSNP_MAGIC \<longrightarrow>
      decryptOsnpSnapshot pf stack buffer key
        = ([], Inl (Error (ascii ''Not an OSNP snapshot''))))
 \<and> (32 \<le> length buffer \<and> take 4 buffer = OSNP_MAGIC
      \<and> decodeMsgpack pf stack buffer (Idx 9) = Inl e9
      \<and> decodeMsgpack pf stack buffer (Idx 8) = Inl e8 \<longrightarrow>
      decryptOsnpSnapshot pf stack buffer key = ([], Inl e8))
 \<and> (read_osnp pf stack buffer = Inr env \<longrightarrow>
      (\<exists>rest. fst (decryptOsnpSnapshot pf stack buffer key)
                 = RsaOaepDecrypt (obj_get pf (header env) (ascii ''wrappedKey'')) # rest)
    \<and> (decodeMsgpack pf stack buffer (Idx 9) = Inr (header env, afterHeader env)
       \<or> (\<exists>e. decodeMsgpack pf stack buffer (Idx 9) = Inl e)
         \<and> decodeMsgpack pf stack buffer (Idx 8) = Inr (header env, afterHeader env))
    \<and> (afterHeader env = Idx a \<and> a + 32 + cipherLen env \<le> int (length buffer) \<longrightarrow>
         0 \<le> a
       \<and> (\<exists>len rest. drop (nat a) buffer = len @ nonce env @ tag env @ ciphertext env @ rest
             \<and> length len = 4 \<and> big_endian len = cipherLen env
             \<and> length (nonce env) = 12 \<and> length (tag env) = 16
             \<and> int (length (ciphertext env)) = cipherLen env)))"
proof (intro conjI impI)
  assume "length buffer < 32"
  thus "decryptOsnpSnapshot pf stack buffer key
          = ([], Inl (Error (ascii ''Snapshot buffer is too small'')))"
    by (intro read_osnp_Inl osnp_too_small)
next
  assume "32 \<le> length buffer \<and> take 4 buffer \<noteq> OSNP_MAGIC"
  thus "decryptOsnpSnapshot pf stack buffer key
          = ([], Inl (Error (ascii ''Not an OSNP snapshot'')))"
    by (intro read_osnp_Inl osnp_bad_magic) auto
next
  assume "32 \<le> length buffer \<and> take 4 buffer = OSNP_MAGIC
      \<and> decodeMsgpack pf stack buffer (Idx 9) = Inl e9
      \<and> decodeMsgpack pf stack buffer (Idx 8) = Inl e8"
  thus "decryptOsnpSnapshot pf stack buffer key = ([], Inl e8)"
    by (intro read_osnp_Inl osnp_no_header[where ?e9.0 = e9]) auto
next
  assume "read_osnp pf stack buffer = Inr env"
  thus "\<exists>rest. fst (decryptOsnpSnapshot pf stack buffer key)
                 = RsaOaepDecrypt (obj_get pf (header env) (ascii ''wrappedKey'')) # rest"
    by (rule read_osnp_calls)
next
  assume "read_osnp pf stack buffer = Inr env"
  thus "decodeMsgpack pf stack buffer (Idx 9) = Inr (header env, afterHeader env)
       \<or> (\<exists>e. decodeMsgpack pf stack buffer (Idx 9) = Inl e)
         \<and> decodeMsgpack pf stack buffer (Idx 8) = Inr (header env, afterHeader env)"
    using read_osnp_header by blast
next
  assume r: "read_osnp pf stack buffer = Inr env"
    and "afterHeader env = Idx a \<and> a + 32 + cipherLen env \<le> int (length buffer)"
  hence l: "0 \<le> a \<and> (\<exists>len rest. drop (nat a) buffer = len @ nonce env @ tag env @ ciphertext env @ rest
             \<and> length len = 4 \<and> big_endian len = cipherLen env
             \<and> length (nonce env) = 12 \<and> length (tag env) = 16
             \<and> int (length (ciphertext env)) = cipherLen env)"
    by (intro osnp_layout) auto
  from l show "0 \<le> a" by simp
  from l show "\<exists>len rest. drop (nat a) buffer = len @ nonce env @ tag env @ ciphertext env @ rest
             \<and> length len = 4 \<and> big_endian len = cipherLen env
             \<and> length (nonce env) = 12 \<and> length (tag env) = 16
             \<and> int (length (ciphertext env)) = cipherLen env" by simp
qed

theorem osnp_fails_closed_and_layout_witness:
  "decryptOsnpSnapshot test_platform (Suc (Suc 0)) [] ()
     = ([], Inl (Error (ascii ''Snapshot buffer is too small'')))
 \<and> decryptOsnpSnapshot test_platform (Suc (Suc 0)) (replicate 32 0) ()
     = ([], Inl (Error (ascii ''Not an OSNP snapshot'')))
 \<and> decryptOsnpSnapshot test_platform (Suc (Suc 0)) headerless_file ()
     = ([], Inl (Error (ascii ''Unsupported msgpack type 0xc1 at offset 8'')))
 \<and> read_osnp test_platform (Suc (Suc 0)) null_file
     = Inr \<lparr>header = JObj [(ascii ''wrappedKey'', JBytes [0xAA])] ObjectPrototype,
            afterHeader = Idx 24, cipherLen = 1, nonce = replicate 12 0x11,
            tag = replicate 16 0x22, ciphertext = [0xc0]\<rparr>
 \<and> (\<exists>rest. fst (decryptOsnpSnapshot test_platform (Suc (Suc 0)) null_file ())
              = RsaOaepDecrypt (JBytes [0xAA]) # rest)
 \<and> (\<exists>len rest. drop 24 null_file = len @ replicate 12 0x11 @ replicate 16 0x22 @ [0xc0] @ rest
        \<and> length len = 4 \<and> big_endian len = 1)"
proof -
  let ?env = "\<lparr>header = JObj [(ascii ''wrappedKey'', JBytes [0xAA])] ObjectPrototype,
            afterHeader = Idx 24, cipherLen = 1, nonce = replicate 12 0x11,
            tag = replicate 16 0x22, ciphertext = [0xc0]\<rparr>"
  have a: "length ([] :: byte list) < 32" by simp
  have "take 4 (replicate 32 (0 :: byte)) \<noteq> OSNP_MAGIC"
  proof
    assume "take 4 (replicate 32 (0 :: byte)) = OSNP_MAGIC"
    hence "take 4 (replicate 32 (0 :: byte)) ! 0 = OSNP_MAGIC ! 0" by simp
    thus False by (simp add: OSNP_MAGIC_def)
  qed
  hence b: "32 \<le> length (replicate 32 (0 :: byte)) \<and> take 4 (replicate 32 (0 :: byte)) \<noteq> OSNP_MAGIC"
    by simp
  have c: "32 \<le> length headerless_file \<and> take 4 headerless_file = OSNP_MAGIC
      \<and> decodeMsgpack test_platform (Suc (Suc 0)) headerless_file (Idx 9)
          = Inl (Error (unsupported_message (Some 0xc1) (Idx 9)))
      \<and> decodeMsgpack test_platform (Suc (Suc 0)) headerless_file (Idx 8)
          = Inl (Error (ascii ''Unsupported msgpack type 0xc1 at offset 8''))"
    by (simp add: headerless_file_decode) (simp add: headerless_file_def OSNP_MAGIC_def)
  have d: "read_osnp test_platform (Suc (Suc 0)) null_file = Inr ?env"
    by (rule null_file_read)
  have d': "afterHeader ?env = Idx 24 \<and> 24 + 32 + cipherLen ?env \<le> int (length null_file)"
    by (simp add: null_file_def file_eval)
  have g: "obj_get test_platform (header ?env) (ascii ''wrappedKey'') = JBytes [0xAA]"
    by (simp add: platform_eval ascii_def)
  note t = osnp_fails_closed_and_layout[where pf = test_platform and stack = "Suc (Suc 0)"
      and key = "()"]
  from t[where buffer = "[]"] a
  have r1: "decryptOsnpSnapshot test_platform (Suc (Suc 0)) [] ()
     = ([], Inl (Error (ascii ''Snapshot buffer is too small'')))" by blast
  from t[where buffer = "replicate 32 0"] b
  have r2: "decryptOsnpSnapshot test_platform (Suc (Suc 0)) (replicate 32 0) ()
     = ([], Inl (Error (ascii ''Not an OSNP snapshot'')))" by blast
  from t[where buffer = headerless_file
      and ?e9.0 = "Error (unsupported_message (Some 0xc1) (Idx 9))"
      and ?e8.0 = "Error (ascii ''Unsupported msgpack type 0xc1 at offset 8'')"] c
  have r3: "decryptOsnpSnapshot test_platform (Suc (Suc 0)) headerless_file ()
     = ([], Inl (Error (ascii ''Unsupported msgpack type 0xc1 at offset 8'')))" by blast
  from t[where buffer = null_file and env = ?env and a = 24] d d'
  have r4: "(\<exists>rest. fst (decryptOsnpSnapshot test_platform (Suc (Suc 0)) null_file ())
                 = RsaOaepDecrypt (obj_get test_platform (header ?env) (ascii ''wrappedKey'')) # rest)"
    and r5: "(\<exists>len rest. drop (nat 24) null_file = len @ nonce ?env @ tag ?env @ ciphertext ?env @ rest
             \<and> length len = 4 \<and> big_endian len = cipherLen ?env
             \<and> length (nonce ?env) = 12 \<and> length (tag ?env) = 16
             \<and> int (length (ciphertext ?env)) = cipherLen ?env)"
    by blast+
  from r4 have r4': "\<exists>rest. fst (decryptOsnpSnapshot test_platform (Suc (Suc 0)) null_file ())
              = RsaOaepDecrypt (JBytes [0xAA]) # rest"
    unfolding g .
  from r5 have r5': "\<exists>len rest. drop 24 null_file = len @ replicate 12 0x11 @ replicate 16 0x22 @ [0xc0] @ rest
        \<and> length len = 4 \<and> big_endian len = 1"
    by simp
  from r1 r2 r3 d r4' r5' show ?thesis by simp
qed

text \<open>
  The claim as the specification words it fails for a file that declares more
  ciphertext than it holds: \<open>short_file\<close> declares 100 bytes and holds one. It is
  accepted, the ciphertext that is read has one byte, and the decryption goes on with it
  and returns.
\<close>

theorem short_ciphertext_accepted:
  "read_osnp test_platform (Suc (Suc 0)) short_file
     = Inr \<lparr>header = JObj [(ascii ''wrappedKey'', JBytes [0xAA])] ObjectPrototype,
            afterHeader = Idx 24, cipherLen = 100, nonce = replicate 12 0x11,
            tag = replicate 16 0x22, ciphertext = [0xc0]\<rparr>
 \<and> decryptOsnpSnapshot test_platform (Suc (Suc 0)) short_file ()
     = ([RsaOaepDecrypt (JBytes [0xAA]), ImportAesKey [0xAA],
         AesGcmDecrypt (replicate 12 0x11) (0xc0 # replicate 16 0x22)], Inr JNull)"
  using short_file_read decrypt_plain_null[OF short_file_read] by simp

section \<open>Decompression\<close>

lemma io_bind_Inr:
  "io_bind m f = (calls, Inr v)
     \<longleftrightarrow> (\<exists>c1 x c2. m = (c1, Inr x) \<and> f x = (c2, Inr v) \<and> calls = c1 @ c2)"
  by (auto simp: io_bind_def split: prod.splits sum.splits)

lemma io_call_Inr: "io_call c r = (calls, Inr v) \<longleftrightarrow> calls = [c] \<and> r = Inr v"
  by (auto simp: io_call_def)

lemma io_result_Inr: "io_result r = (calls, Inr v) \<longleftrightarrow> calls = [] \<and> r = Inr v"
  by (auto simp: io_result_def)

lemma io_return_Inr: "io_return x = (calls, Inr v) \<longleftrightarrow> calls = [] \<and> v = x"
  by (auto simp: io_return_def)

lemma io_throw_Inr: "io_throw e \<noteq> (calls, Inr v)"
  by (simp add: io_throw_def)

lemmas io_Inr = io_bind_Inr io_call_Inr io_result_Inr io_return_Inr io_throw_Inr

text \<open>The calls of a decryption that returns.\<close>

lemma json_calls:
  assumes "decryptJsonSnapshot pf payload key = (calls, Inr v)"
  shows "\<exists>wk ck k n ct plain.
           aes_gcm_decrypt pf k n ct = Inr plain
         \<and> calls = [RsaOaepDecrypt (JBytes wk), ImportAesKey ck, AesGcmDecrypt n ct]
                   @ (if obj_get pf (obj_get pf payload (ascii ''enc'')) (ascii ''compression'')
                         = JStr (ascii ''gzip'')
                      then [Gunzip plain] else [])"
proof (cases "obj_get pf (obj_get pf payload (ascii ''enc'')) (ascii ''compression'')
                         = JStr (ascii ''gzip'')")
  case True
  with assms show ?thesis
    by (simp add: decryptJsonSnapshot_def Let_def io_Inr split: if_splits) blast
next
  case False
  with assms show ?thesis
    by (simp add: decryptJsonSnapshot_def Let_def io_Inr split: if_splits) blast
qed

lemma osnp_calls:
  assumes "decryptOsnpSnapshot pf stack buffer key = (calls, Inr v)"
  shows "\<exists>env ck k plain.
           read_osnp pf stack buffer = Inr env
         \<and> aes_gcm_decrypt pf k (nonce env) (ciphertext env @ tag env) = Inr plain
         \<and> calls = [RsaOaepDecrypt (obj_get pf (header env) (ascii ''wrappedKey'')),
                    ImportAesKey ck, AesGcmDecrypt (nonce env) (ciphertext env @ tag env)]
                   @ (if obj_get pf (header env) (ascii ''compression'') = JStr (ascii ''gzip'')
                      then [Gunzip plain] else [])"
proof -
  from assms obtain env where env: "read_osnp pf stack buffer = Inr env"
    by (cases "read_osnp pf stack buffer") (auto simp: decryptOsnpSnapshot_def io_throw_Inr)
  show ?thesis
  proof (cases "obj_get pf (header env) (ascii ''compression'') = JStr (ascii ''gzip'')")
    case True
    with assms env show ?thesis
      by (simp add: decryptOsnpSnapshot_def Let_def io_Inr) blast
  next
    case False
    with assms env show ?thesis
      by (simp add: decryptOsnpSnapshot_def Let_def io_Inr) blast
  qed
qed

text \<open>The decryption placeholder of the full-worker pipeline, which reads no envelope,
  is where the first two bytes of the plaintext decide.\<close>

lemma decryptSnapshotData_sniffs:
  assumes "decryptSnapshotData pf encryptedData pem = (calls, Inr v)"
  shows "\<exists>wk ck k iv ct plain.
           aes_gcm_decrypt pf k iv ct = Inr plain
         \<and> calls = [RsaOaepDecrypt (JBytes wk), ImportAesKey ck, AesGcmDecrypt iv ct]
                   @ (if byte_at plain 0 = Some 0x1f \<and> byte_at plain 1 = Some 0x8b
                      then [Gunzip plain] else [])"
proof -
  from assms obtain pk where pk: "import_private_key pf pem = Inr pk"
    by (cases "import_private_key pf pem") (auto simp: decryptSnapshotData_def io_throw_Inr)
  from assms pk show ?thesis
    by (simp add: decryptSnapshotData_def Let_def io_Inr split: if_splits) (metis append.simps)
qed

text \<open>\<^verbatim>\<open>decryptSnapshot\<close> gives a buffer that is not JSON text to the OSNP function.\<close>

lemma decryptSnapshot_falls_back:
  assumes "import_private_key pf pem = Inr key" "json_parse pf (text_decode buffer) = Inl e"
  shows "decryptSnapshot pf stack buffer pem = decryptOsnpSnapshot pf stack buffer key"
  using assms by (simp add: decryptSnapshot_def io_throw_def split: prod.splits)

subsection \<open>Concrete envelopes\<close>

lemma gzip_header_decodes:
  "decodeMsgpack test_platform (Suc (Suc 0)) gzip_file (Idx 9)
     = Inr (JObj [(ascii ''wrappedKey'', JBytes [0xAA]),
                  (ascii ''compression'', JStr (ascii ''gzip''))] ObjectPrototype, Idx 41)"
  by (simp add: gzip_file_def file_eval decode_eval slice_eval text_eval platform_eval)

lemma gzip_file_read:
  "read_osnp test_platform (Suc (Suc 0)) gzip_file
     = Inr \<lparr>header = JObj [(ascii ''wrappedKey'', JBytes [0xAA]),
                           (ascii ''compression'', JStr (ascii ''gzip''))] ObjectPrototype,
            afterHeader = Idx 41, cipherLen = 3, nonce = replicate 12 0x11,
            tag = replicate 16 0x22, ciphertext = [0x1f, 0x8b, 0xc0]\<rparr>"
  unfolding read_osnp_def gzip_header_decodes
  by (simp add: gzip_file_def file_eval slice_eval text_eval platform_eval js_truthy_def
        js_is_object_def getUint32_def be32_def byte_at_def to_int32_def Let_def)

lemma gzip_file_run:
  "decryptOsnpSnapshot test_platform (Suc (Suc 0)) gzip_file ()
     = ([RsaOaepDecrypt (JBytes [0xAA]), ImportAesKey [0xAA],
         AesGcmDecrypt (replicate 12 0x11) ([0x1f, 0x8b, 0xc0] @ replicate 16 0x22),
         Gunzip [0x1f, 0x8b, 0xc0]], Inr JNull)"
  unfolding decryptOsnpSnapshot_def gzip_file_read
  by (simp add: io_eval platform_eval parse_json_or_msgpack_def text_eval decode_eval Let_def)

lemma gzip_envelope_run:
  "decryptJsonSnapshot test_platform gzip_envelope ()
     = ([RsaOaepDecrypt (JBytes [0x6b]), ImportAesKey [0x6b],
         AesGcmDecrypt [0x6e, 0x6e, 0x6e, 0x6e, 0x6e, 0x6e, 0x6e, 0x6e, 0x6e, 0x6e, 0x6e, 0x6e]
           [0x1f, 0x8b, 0x6e, 0x75, 0x6c, 0x6c, 0x74, 0x74, 0x74, 0x74, 0x74, 0x74, 0x74, 0x74,
            0x74, 0x74, 0x74, 0x74, 0x74, 0x74, 0x74, 0x74],
         Gunzip [0x1f, 0x8b, 0x6e, 0x75, 0x6c, 0x6c]], Inr JNull)"
  by (simp add: decryptJsonSnapshot_def gzip_envelope_def test_enc_def io_eval platform_eval
        base64ToUint8Array_def js_nullish_def js_truthy_def text_eval Let_def)

lemma magic_plaintext_read:
  "read_osnp test_platform (Suc (Suc 0)) magic_plaintext_file
     = Inr \<lparr>header = JObj [(ascii ''wrappedKey'', JBytes [0xAA])] ObjectPrototype,
            afterHeader = Idx 24, cipherLen = 2, nonce = replicate 12 0x11,
            tag = replicate 16 0x22, ciphertext = [0x1f, 0x8b]\<rparr>"
  unfolding read_osnp_def magic_plaintext_file_def plain_header_decodes
  by (simp add: file_eval slice_eval text_eval platform_eval js_truthy_def js_is_object_def
        getUint32_def be32_def byte_at_def to_int32_def Let_def)

lemma magic_plaintext_run:
  "decryptOsnpSnapshot test_platform (Suc (Suc 0)) magic_plaintext_file ()
     = ([RsaOaepDecrypt (JBytes [0xAA]), ImportAesKey [0xAA],
         AesGcmDecrypt (replicate 12 0x11) ([0x1f, 0x8b] @ replicate 16 0x22)],
        Inr (JNum (NInt 31)))"
  unfolding decryptOsnpSnapshot_def magic_plaintext_read
  by (simp add: io_eval platform_eval parse_json_or_msgpack_def text_eval decode_eval Let_def)

text \<open>
  C4, as the code has it. For every JSON envelope and every OSNP file whose decryption
  returns, the calls made are the unwrapping of the key, the import of the key, the
  AES-GCM decryption, and then the decompression of the decrypted bytes if and only if
  the \<^verbatim>\<open>compression\<close> field (of \<^verbatim>\<open>enc\<close>, of the OSNP header) is the string \<^verbatim>\<open>gzip\<close>.
  With any other value of the field, or without it, the decrypted bytes are not
  decompressed, whatever their first bytes are.
\<close>

theorem decompression_follows_compression_field:
  "(decryptJsonSnapshot pf payload key = (calls, Inr v) \<longrightarrow>
      (\<exists>wk ck k n ct plain.
           aes_gcm_decrypt pf k n ct = Inr plain
         \<and> calls = [RsaOaepDecrypt (JBytes wk), ImportAesKey ck, AesGcmDecrypt n ct]
                   @ (if obj_get pf (obj_get pf payload (ascii ''enc'')) (ascii ''compression'')
                         = JStr (ascii ''gzip'')
                      then [Gunzip plain] else [])))
 \<and> (decryptOsnpSnapshot pf stack buffer key = (calls', Inr v') \<longrightarrow>
      (\<exists>env ck k plain.
           read_osnp pf stack buffer = Inr env
         \<and> aes_gcm_decrypt pf k (nonce env) (ciphertext env @ tag env) = Inr plain
         \<and> calls' = [RsaOaepDecrypt (obj_get pf (header env) (ascii ''wrappedKey'')),
                     ImportAesKey ck, AesGcmDecrypt (nonce env) (ciphertext env @ tag env)]
                    @ (if obj_get pf (header env) (ascii ''compression'') = JStr (ascii ''gzip'')
                       then [Gunzip plain] else [])))"
  using json_calls[of pf payload key calls v] osnp_calls[of pf stack buffer key calls' v']
  by blast

theorem decompression_follows_compression_field_witness:
  "decryptJsonSnapshot test_platform gzip_envelope ()
     = ([RsaOaepDecrypt (JBytes [0x6b]), ImportAesKey [0x6b],
         AesGcmDecrypt [0x6e, 0x6e, 0x6e, 0x6e, 0x6e, 0x6e, 0x6e, 0x6e, 0x6e, 0x6e, 0x6e, 0x6e]
           [0x1f, 0x8b, 0x6e, 0x75, 0x6c, 0x6c, 0x74, 0x74, 0x74, 0x74, 0x74, 0x74, 0x74, 0x74,
            0x74, 0x74, 0x74, 0x74, 0x74, 0x74, 0x74, 0x74],
         Gunzip [0x1f, 0x8b, 0x6e, 0x75, 0x6c, 0x6c]], Inr JNull)
 \<and> decryptOsnpSnapshot test_platform (Suc (Suc 0)) gzip_file ()
     = ([RsaOaepDecrypt (JBytes [0xAA]), ImportAesKey [0xAA],
         AesGcmDecrypt (replicate 12 0x11) ([0x1f, 0x8b, 0xc0] @ replicate 16 0x22),
         Gunzip [0x1f, 0x8b, 0xc0]], Inr JNull)
 \<and> obj_get test_platform (obj_get test_platform gzip_envelope (ascii ''enc'')) (ascii ''compression'')
     = JStr (ascii ''gzip'')
 \<and> (\<exists>env plain. read_osnp test_platform (Suc (Suc 0)) gzip_file = Inr env
        \<and> obj_get test_platform (header env) (ascii ''compression'') = JStr (ascii ''gzip'')
        \<and> aes_gcm_decrypt test_platform [0xAA] (nonce env) (ciphertext env @ tag env) = Inr plain
        \<and> plain = [0x1f, 0x8b, 0xc0])"
proof -
  note j = gzip_envelope_run and f = gzip_file_run
  have flag: "obj_get test_platform (obj_get test_platform gzip_envelope (ascii ''enc''))
                (ascii ''compression'') = JStr (ascii ''gzip'')"
    by (simp add: gzip_envelope_def test_enc_def platform_eval ascii_def)
  from decompression_follows_compression_field[where pf = test_platform
      and payload = gzip_envelope and key = "()" and stack = "Suc (Suc 0)"
      and buffer = gzip_file] j f
  obtain env ck k plain where
    env: "read_osnp test_platform (Suc (Suc 0)) gzip_file = Inr env"
    and plain: "aes_gcm_decrypt test_platform k (nonce env) (ciphertext env @ tag env) = Inr plain"
    and calls: "[RsaOaepDecrypt (JBytes [0xAA]), ImportAesKey [0xAA],
         AesGcmDecrypt (replicate 12 0x11) ([0x1f, 0x8b, 0xc0] @ replicate 16 0x22),
         Gunzip [0x1f, 0x8b, 0xc0]]
        = [RsaOaepDecrypt (obj_get test_platform (header env) (ascii ''wrappedKey'')),
                     ImportAesKey ck, AesGcmDecrypt (nonce env) (ciphertext env @ tag env)]
                    @ (if obj_get test_platform (header env) (ascii ''compression'')
                          = JStr (ascii ''gzip'')
                       then [Gunzip plain] else [])"
    by blast
  from calls have g: "obj_get test_platform (header env) (ascii ''compression'') = JStr (ascii ''gzip'')"
    and p: "plain = [0x1f, 0x8b, 0xc0]"
    by (auto split: if_splits)
  from plain have "aes_gcm_decrypt test_platform [0xAA] (nonce env) (ciphertext env @ tag env)
                     = Inr plain"
    by (simp add: test_platform_def)
  with env g p j f flag show ?thesis by blast
qed

text \<open>
  The claim as the specification words it fails for \<open>magic_plaintext_file\<close>: its header
  has no \<^verbatim>\<open>compression\<close>, its decrypted bytes are the gzip magic \<^verbatim>\<open>0x1f 0x8b\<close>, its
  decryption returns (the bytes decode as the number 31), and nothing is decompressed.
\<close>

theorem gzip_magic_not_sniffed:
  "read_osnp test_platform (Suc (Suc 0)) magic_plaintext_file
     = Inr \<lparr>header = JObj [(ascii ''wrappedKey'', JBytes [0xAA])] ObjectPrototype,
            afterHeader = Idx 24, cipherLen = 2, nonce = replicate 12 0x11,
            tag = replicate 16 0x22, ciphertext = [0x1f, 0x8b]\<rparr>
 \<and> aes_gcm_decrypt test_platform [0xAA] (replicate 12 0x11) ([0x1f, 0x8b] @ replicate 16 0x22)
     = Inr [0x1f, 0x8b]
 \<and> decryptOsnpSnapshot test_platform (Suc (Suc 0)) magic_plaintext_file ()
     = ([RsaOaepDecrypt (JBytes [0xAA]), ImportAesKey [0xAA],
         AesGcmDecrypt (replicate 12 0x11) ([0x1f, 0x8b] @ replicate 16 0x22)],
        Inr (JNum (NInt 31)))"
  using magic_plaintext_read magic_plaintext_run by (simp add: test_platform_def)
end
